theory Spec2Isabelle
  imports Complex_Main "HOL-Library.Char_ord" "HOL-Library.List_Lexorder"
    "HOL-Library.AList" "HOL-Library.Sublist"
begin

section \<open>The orchestrator\<close>

text \<open>
  The functions of \<open>scripts/oci-terraform-orchestrator-v2.py\<close> that order the services,
  run one service, drive the levels and detect the changed services, each under the name it
  has in the source. What the script gets from outside (the provisioning tool, the file
  system, git, the clock) is an argument of the function that uses it. Printing is kept only
  where a property speaks of it: the warnings of \<open>topological_sort\<close> and of
  \<open>detect_changed_services\<close> are part of the result.
\<close>

subsection \<open>Python strings, lists and sets\<close>

text \<open>
  A Python string is a \<open>string\<close>, one \<open>char\<close> for each character, so the texts covered
  are those of code points below 256 (service names, paths and the summary lines of the tool
  are ASCII). An exception is a value: a function that can raise returns \<open>py_error + 'a\<close>,
  or \<open>'a option\<close> where only one exception is possible.
\<close>

datatype py_error = ValueError | OSError | GitError | KeyError

text \<open>\<open>c.isspace()\<close> on these characters.\<close>

definition py_isspace :: "char \<Rightarrow> bool" where
  "py_isspace c \<longleftrightarrow> (of_char c :: nat) \<in> {9, 10, 11, 12, 13, 28, 29, 30, 31, 32, 133, 160}"

text \<open>\<open>s.split(sep)\<close> for a one-character separator: the pieces between the separators.\<close>

fun split_char :: "char \<Rightarrow> string \<Rightarrow> string list" where
  "split_char sep [] = [[]]"
| "split_char sep (c # cs) =
     (if c = sep then [] # split_char sep cs
      else (case split_char sep cs of
              [] \<Rightarrow> [[c]]
            | p # ps \<Rightarrow> (c # p) # ps))"

text \<open>\<open>s.split()\<close>: the maximal runs of characters that are not whitespace.\<close>

fun split_ws_acc :: "string \<Rightarrow> string \<Rightarrow> string list" where
  "split_ws_acc acc [] = (if acc = [] then [] else [rev acc])"
| "split_ws_acc acc (c # cs) =
     (if py_isspace c then (if acc = [] then split_ws_acc [] cs else rev acc # split_ws_acc [] cs)
      else split_ws_acc (c # acc) cs)"

definition split_ws :: "string \<Rightarrow> string list" where
  "split_ws s = split_ws_acc [] s"

text \<open>\<open>sub in s\<close>\<close>

fun py_in :: "string \<Rightarrow> string \<Rightarrow> bool" where
  "py_in sub [] = (sub = [])"
| "py_in sub (c # cs) = (prefix sub (c # cs) \<or> py_in sub cs)"

text \<open>\<open>s.strip()\<close>\<close>

definition py_strip :: "string \<Rightarrow> string" where
  "py_strip s = rev (dropWhile py_isspace (rev (dropWhile py_isspace s)))"

text \<open>
  \<open>int(s)\<close>: surrounding whitespace is dropped; what remains is an optional sign, then
  decimal digits, single underscores allowed between digits. \<open>None\<close> is \<open>ValueError\<close>.
\<close>

definition is_digit :: "char \<Rightarrow> bool" where
  "is_digit c \<longleftrightarrow> CHR ''0'' \<le> c \<and> c \<le> CHR ''9''"

definition digit_val :: "char \<Rightarrow> int" where
  "digit_val c = int (of_char c) - 48"

fun digits_acc :: "int \<Rightarrow> string \<Rightarrow> int option" where
  "digits_acc n [] = Some n"
| "digits_acc n [c] = (if is_digit c then Some (10 * n + digit_val c) else None)"
| "digits_acc n (c # d # cs) =
     (if is_digit c then
        (if d = CHR ''_'' then
           (case cs of [] \<Rightarrow> None
            | e # es \<Rightarrow> if is_digit e then digits_acc (10 * n + digit_val c) cs else None)
         else digits_acc (10 * n + digit_val c) (d # cs))
      else None)"

definition py_digits :: "string \<Rightarrow> int option" where
  "py_digits s = (case s of [] \<Rightarrow> None | c # cs \<Rightarrow> if is_digit c then digits_acc 0 s else None)"

definition py_int :: "string \<Rightarrow> int option" where
  "py_int s =
     (case py_strip s of
        [] \<Rightarrow> None
      | c # cs \<Rightarrow>
          if c = CHR ''-'' then map_option uminus (py_digits cs)
          else if c = CHR ''+'' then py_digits cs
          else py_digits (c # cs))"

definition newline :: char where
  "newline = CHR 0x0A"

text \<open>\<open>s.split(sub)[0]\<close>: the text before the first occurrence of \<open>sub\<close>.\<close>

fun before_first :: "string \<Rightarrow> string \<Rightarrow> string" where
  "before_first sub [] = []"
| "before_first sub (c # cs) = (if prefix sub (c # cs) then [] else c # before_first sub cs)"

text \<open>\<open>str(n)\<close> for an integer.\<close>

fun show_nat :: "nat \<Rightarrow> string" where
  "show_nat n =
     (if n < 10 then [char_of (48 + n)]
      else show_nat (n div 10) @ [char_of (48 + n mod 10)])"

definition show_int :: "int \<Rightarrow> string" where
  "show_int i = (if i < 0 then CHR ''-'' # show_nat (nat (- i)) else show_nat (nat i))"

text \<open>\<open>xs[-n:]\<close> for \<open>n = len(level_services)\<close>: with \<open>n = 0\<close> it is the whole list.\<close>

definition py_last :: "nat \<Rightarrow> 'a list \<Rightarrow> 'a list" where
  "py_last n xs = (if n = 0 then xs else drop (length xs - n) xs)"

text \<open>
  A Python set of names is a list without repetitions; the two functions that return one sort
  it first, so the order of insertion never shows. \<open>set_add\<close> is \<open>s.add(x)\<close>.
\<close>

definition set_add :: "string \<Rightarrow> string list \<Rightarrow> string list" where
  "set_add x xs = (if x \<in> set xs then xs else xs @ [x])"

text \<open>\<open>services.update(affected_services)\<close>\<close>

definition set_update :: "string list \<Rightarrow> string list \<Rightarrow> string list" where
  "set_update services extra = foldl (\<lambda>acc x. set_add x acc) services extra"

subsection \<open>Dependency ordering: \<open>topological_sort\<close>\<close>

text \<open>
  \<open>sorted\<close> on a list of strings is the lexicographic order on code points: \<open>sort\<close>, with
  the order of \<open>List_Lexorder\<close> over \<open>Char_ord\<close>.

  A Python \<open>dict\<close> is an association list: \<open>map_of\<close> reads a key (\<open>None\<close> is
  \<open>KeyError\<close>), \<open>AList.update\<close> stores one (in place when the key exists, at the end
  otherwise, as insertion order has it).

  The source reads the global \<open>SERVICE_DEPENDENCIES\<close>. Here the table is an argument,
  \<open>topological_sort_deps\<close>, and \<open>topological_sort\<close> is its instance at the table of the
  source: that table has no cycle, and the paths of the function that handle one can only be
  reached with another table.
\<close>

type_synonym service = string

type_synonym dep_table = "(service \<times> service list) list"

type_synonym graph = "(service \<times> service list) list"

type_synonym indeg = "(service \<times> int) list"

definition SERVICE_DEPENDENCIES :: dep_table where
  "SERVICE_DEPENDENCIES =
    [(''identity'', []),
     (''kms'', []),
     (''network'', [''identity'']),
     (''dns'', [''identity'']),
     (''compute'', [''network'', ''identity'']),
     (''oke'', [''network'', ''identity'']),
     (''database'', [''network'', ''identity'']),
     (''managementservices'', [''network'', ''identity'']),
     (''loadbalancer'', [''network'', ''identity'']),
     (''firewall'', [''network'', ''identity'']),
     (''nsg'', [''network'', ''identity'']),
     (''fss'', [''network'', ''identity'']),
     (''oss'', [''identity'']),
     (''security'', [''identity'']),
     (''tagging'', [''identity'']),
     (''quota'', [''identity'']),
     (''budget'', [''identity'']),
     (''vlan'', [''network'', ''identity'']),
     (''ocvs'', [''network'', ''identity''])]"

text \<open>\<open>SERVICE_DEPENDENCIES.get(service, [])\<close>, for a dependency table \<open>T\<close>.\<close>

definition deps_of :: "dep_table \<Rightarrow> service \<Rightarrow> service list" where
  "deps_of T s = (case map_of T s of None \<Rightarrow> [] | Some ds \<Rightarrow> ds)"

text \<open>The first loop: every candidate gets an empty adjacency list and in-degree 0.\<close>

fun init_nodes :: "service list \<Rightarrow> graph \<times> indeg \<Rightarrow> graph \<times> indeg" where
  "init_nodes [] st = st"
| "init_nodes (s # ss) (g, d) = init_nodes ss (AList.update s [] g, AList.update s 0 d)"

text \<open>
  The second loop. The inner loop runs over the prerequisites of one service; an edge
  is added only when the prerequisite is itself a candidate.
\<close>

fun add_deps ::
  "service list \<Rightarrow> service \<Rightarrow> service list \<Rightarrow> graph \<times> indeg \<Rightarrow> (graph \<times> indeg) option" where
  "add_deps services service [] st = Some st"
| "add_deps services service (dep # deps) (g, d) =
     (if dep \<in> set services then
        (case map_of g dep of
           None \<Rightarrow> None
         | Some l \<Rightarrow>
             (case map_of d service of
                None \<Rightarrow> None
              | Some n \<Rightarrow>
                  add_deps services service deps
                    (AList.update dep (l @ [service]) g, AList.update service (n + 1) d)))
      else add_deps services service deps (g, d))"

fun add_edges ::
  "dep_table \<Rightarrow> service list \<Rightarrow> service list \<Rightarrow> graph \<times> indeg \<Rightarrow> (graph \<times> indeg) option" where
  "add_edges T services [] st = Some st"
| "add_edges T services (s # ss) st =
     (case add_deps services s (deps_of T s) st of
        None \<Rightarrow> None
      | Some st' \<Rightarrow> add_edges T services ss st')"

definition build_graph :: "dep_table \<Rightarrow> service list \<Rightarrow> (graph \<times> indeg) option" where
  "build_graph T services = add_edges T services services (init_nodes services ([], []))"

text \<open>\<open>[s for s in services if P(in_degree[s])]\<close>\<close>

fun select_by :: "(int \<Rightarrow> bool) \<Rightarrow> indeg \<Rightarrow> service list \<Rightarrow> service list option" where
  "select_by P d [] = Some []"
| "select_by P d (s # ss) =
     (case map_of d s of
        None \<Rightarrow> None
      | Some n \<Rightarrow>
          (case select_by P d ss of
             None \<Rightarrow> None
           | Some r \<Rightarrow> Some (if P n then s # r else r)))"

text \<open>
  Kahn's algorithm. \<open>relax\<close> is the loop over \<open>graph[service]\<close>: each dependent loses
  one unit of in-degree and joins the next level when it reaches exactly 0.
\<close>

fun relax :: "service list \<Rightarrow> indeg \<times> service list \<Rightarrow> (indeg \<times> service list) option" where
  "relax [] st = Some st"
| "relax (dep # rest) (d, next_level) =
     (case map_of d dep of
        None \<Rightarrow> None
      | Some n \<Rightarrow>
          relax rest
            (AList.update dep (n - 1) d,
             if n - 1 = 0 then next_level @ [dep] else next_level))"

fun process_level ::
  "graph \<Rightarrow> service list \<Rightarrow> indeg \<times> service list \<Rightarrow> (indeg \<times> service list) option" where
  "process_level g [] st = Some st"
| "process_level g (service # rest) st =
     (case map_of g service of
        None \<Rightarrow> None
      | Some dependents \<Rightarrow>
          (case relax dependents st of
             None \<Rightarrow> None
           | Some st' \<Rightarrow> process_level g rest st'))"

text \<open>
  The \<open>while current_level:\<close> loop. It returns the in-degrees as they are at the end,
  which the code after the loop reads, and the levels. Its termination is proved below.
\<close>

function kahn_loop ::
  "graph \<Rightarrow> indeg \<Rightarrow> service list list \<Rightarrow> service list \<Rightarrow> (indeg \<times> service list list) option" where
  "kahn_loop g d levels current_level =
     (if current_level = [] then Some (d, levels)
      else
        (case process_level g current_level (d, []) of
           None \<Rightarrow> None
         | Some (d', next_level) \<Rightarrow>
             kahn_loop g d' (levels @ [sort current_level]) next_level))"
  by pat_completeness auto

text \<open>The two warnings the function prints; the second names the services left over.\<close>

datatype warning = NoZeroDependencies | CircularDependency "service list"

text \<open>
  \<open>topological_sort\<close>, over a dependency table. The result is the printed warnings and
  the levels; \<open>None\<close> is a \<open>KeyError\<close> of one of the dictionary reads.
\<close>

definition topological_sort_deps ::
  "dep_table \<Rightarrow> service list \<Rightarrow> (warning list \<times> service list list) option" where
  "topological_sort_deps T services =
     (case build_graph T services of
        None \<Rightarrow> None
      | Some (g, in_degree) \<Rightarrow>
          (case select_by (\<lambda>n. n = 0) in_degree services of
             None \<Rightarrow> None
           | Some current_level \<Rightarrow>
               if current_level = [] then
                 Some ([NoZeroDependencies], map (\<lambda>s. [s]) services)
               else
                 (case kahn_loop g in_degree [] current_level of
                    None \<Rightarrow> None
                  | Some (in_degree', levels) \<Rightarrow>
                      if sum_list (map length levels) \<noteq> length services then
                        (case select_by (\<lambda>n. 0 < n) in_degree' services of
                           None \<Rightarrow> None
                         | Some remaining \<Rightarrow>
                             Some ([CircularDependency remaining], levels @ [sort remaining]))
                      else Some ([], levels))))"

definition topological_sort :: "service list \<Rightarrow> (warning list \<times> service list list) option" where
  "topological_sort services = topological_sort_deps SERVICE_DEPENDENCIES services"

subsection \<open>Summary parsing\<close>

text \<open>The dictionary \<open>{'add': .., 'change': .., 'destroy': ..}\<close>.\<close>

record summary =
  sm_add :: int
  sm_change :: int
  sm_destroy :: int

text \<open>
  The body of \<open>for i, part in enumerate(parts)\<close> in \<open>parse_plan_summary\<close>: the token
  read is \<open>parts[i-1]\<close>, and a failing \<open>int\<close> leaves the counter as it was.
\<close>

definition plan_part :: "string list \<Rightarrow> summary \<Rightarrow> nat \<times> string \<Rightarrow> summary" where
  "plan_part parts sm ip =
     (case ip of (i, part) \<Rightarrow>
        if part = ''add,'' \<and> i > 0 then
          (case py_int (parts ! (i - 1)) of Some n \<Rightarrow> sm\<lparr>sm_add := n\<rparr> | None \<Rightarrow> sm)
        else if part = ''change,'' \<and> i > 0 then
          (case py_int (parts ! (i - 1)) of Some n \<Rightarrow> sm\<lparr>sm_change := n\<rparr> | None \<Rightarrow> sm)
        else if part = ''destroy.'' \<and> i > 0 then
          (case py_int (parts ! (i - 1)) of Some n \<Rightarrow> sm\<lparr>sm_destroy := n\<rparr> | None \<Rightarrow> sm)
        else sm)"

definition plan_line :: "summary \<Rightarrow> string \<Rightarrow> summary" where
  "plan_line sm line =
     (if py_in ''Plan:'' line
      then foldl (plan_part (split_ws line)) sm (enumerate 0 (split_ws line))
      else sm)"

definition parse_plan_summary :: "string \<Rightarrow> summary" where
  "parse_plan_summary output' =
     foldl plan_line \<lparr>sm_add = 0, sm_change = 0, sm_destroy = 0\<rparr> (split_char newline output')"

text \<open>\<open>int(line.split(word)[0].split()[-1])\<close>, with every exception caught.\<close>

definition number_before :: "string \<Rightarrow> string \<Rightarrow> int option" where
  "number_before word line =
     (case split_ws (before_first word line) of
        [] \<Rightarrow> None
      | t # ts \<Rightarrow> py_int (last (t # ts)))"

definition apply_line :: "summary \<Rightarrow> string \<Rightarrow> summary" where
  "apply_line sm line =
     (if py_in ''Apply complete!'' line \<or> py_in ''Destroy complete!'' line then
        (let sm1 = (if py_in ''added'' line
                    then (case number_before ''added'' line of
                            Some n \<Rightarrow> sm\<lparr>sm_add := n\<rparr> | None \<Rightarrow> sm)
                    else sm);
             sm2 = (if py_in ''changed'' line
                    then (case number_before ''changed'' line of
                            Some n \<Rightarrow> sm1\<lparr>sm_change := n\<rparr> | None \<Rightarrow> sm1)
                    else sm1)
         in (if py_in ''destroyed'' line
             then (case number_before ''destroyed'' line of
                     Some n \<Rightarrow> sm2\<lparr>sm_destroy := n\<rparr> | None \<Rightarrow> sm2)
             else sm2))
      else sm)"

definition parse_apply_summary :: "string \<Rightarrow> summary" where
  "parse_apply_summary output' =
     foldl apply_line \<lparr>sm_add = 0, sm_change = 0, sm_destroy = 0\<rparr> (split_char newline output')"

subsection \<open>Running one service: \<open>execute_terraform_for_service\<close>\<close>

text \<open>
  What \<open>subprocess.run\<close> does: the process ends with a return code and its two captured
  streams, or the timeout expires, or the call raises another exception (its text kept).
\<close>

datatype proc = Completed int string string | TimeoutExpired | Raised string

datatype action = Plan | Apply

fun action_name :: "action \<Rightarrow> string" where
  "action_name Plan = ''plan''"
| "action_name Apply = ''apply''"

text \<open>
  The result dictionary (its key \<open>output\<close> is the field \<open>output_text\<close>). \<open>error\<close> is
  \<open>None\<close> or a text; \<open>retry_count\<close> is absent from the dictionaries built outside
  \<open>execute_terraform_for_service\<close>. The duration is a real number of seconds.
\<close>

record exec_result =
  service :: string
  success :: bool
  duration :: real
  output_text :: string
  error :: "string option"
  resources_created :: int
  resources_changed :: int
  resources_destroyed :: int
  retry_count :: "int option"

definition set_counts :: "summary \<Rightarrow> exec_result \<Rightarrow> exec_result" where
  "set_counts sm r =
     r\<lparr>resources_created := sm_add sm, resources_changed := sm_change sm,
       resources_destroyed := sm_destroy sm\<rparr>"

definition timeout_message :: "action \<Rightarrow> string" where
  "timeout_message a = ''Terraform '' @ action_name a @ '' timed out after 30 minutes''"

definition stderr_block :: "string \<Rightarrow> string" where
  "stderr_block err = [newline, newline] @ ''STDERR:'' @ [newline] @ err"

text \<open>
  \<open>init\<close> and \<open>run\<close> are the outcomes of the two \<open>subprocess.run\<close> calls (the second is
  only made when the first ends with return code 0), \<open>elapsed\<close> the time measured at the
  end. A failed init returns early, before the duration is stored. Both calls stand in one
  \<open>try\<close>, with one handler for \<open>TimeoutExpired\<close> and one for every other exception.
\<close>

definition execute_terraform_for_service ::
  "string \<Rightarrow> action \<Rightarrow> int \<Rightarrow> proc \<Rightarrow> proc \<Rightarrow> real \<Rightarrow> exec_result" where
  "execute_terraform_for_service service_name a retry init run elapsed =
     (let result =
        \<lparr>service = service_name, success = False, duration = 0, output_text = [], error = None,
         resources_created = 0, resources_changed = 0, resources_destroyed = 0,
         retry_count = Some retry\<rparr>
      in case init of
        TimeoutExpired \<Rightarrow> result\<lparr>error := Some (timeout_message a), duration := elapsed\<rparr>
      | Raised e \<Rightarrow> result\<lparr>error := Some e, duration := elapsed\<rparr>
      | Completed init_rc init_out init_err \<Rightarrow>
          if init_rc \<noteq> 0 then
            result\<lparr>error := Some (''Init failed: '' @ init_err), output_text := init_out @ init_err\<rparr>
          else
            (case run of
               TimeoutExpired \<Rightarrow> result\<lparr>error := Some (timeout_message a), duration := elapsed\<rparr>
             | Raised e \<Rightarrow> result\<lparr>error := Some e, duration := elapsed\<rparr>
             | Completed rc out err \<Rightarrow>
                 (case a of
                    Plan \<Rightarrow>
                      (let r = set_counts (parse_plan_summary out) (result\<lparr>output_text := out\<rparr>)
                       in if rc = 0 \<or> rc = 2 then r\<lparr>success := True, duration := elapsed\<rparr>
                          else r\<lparr>error := Some (''Plan failed (exit code '' @ show_int rc @ ''): '' @ err),
                                 output_text := out @ stderr_block err, duration := elapsed\<rparr>)
                  | Apply \<Rightarrow>
                      (let r = set_counts (parse_apply_summary out) (result\<lparr>output_text := out\<rparr>)
                       in if rc = 0 then r\<lparr>success := True, duration := elapsed\<rparr>
                          else r\<lparr>error := Some (''Apply failed (exit code '' @ show_int rc @ ''): '' @ err),
                                 output_text := out @ stderr_block err, duration := elapsed\<rparr>))))"

subsection \<open>The level-by-level driver of \<open>main\<close>\<close>

text \<open>The parsed command line, as far as the loop reads it.\<close>

record args =
  action :: action
  dry_run :: bool
  parallel :: bool
  max_workers :: int

text \<open>
  The outside world of one run: for each service the outcomes of its two processes and the
  time its run takes, and the moment its future completes in a parallel level.
\<close>

record environment =
  init_outcome :: "service \<Rightarrow> proc"
  run_outcome :: "service \<Rightarrow> proc"
  elapsed :: "service \<Rightarrow> real"
  finish_time :: "service \<Rightarrow> real"

definition run_service :: "environment \<Rightarrow> action \<Rightarrow> service \<Rightarrow> exec_result" where
  "run_service env a s =
     execute_terraform_for_service s a 0 (init_outcome env s) (run_outcome env s) (elapsed env s)"

text \<open>The dictionary \<open>main\<close> builds for a service in a dry run.\<close>

definition dry_run_result :: "action \<Rightarrow> service \<Rightarrow> exec_result" where
  "dry_run_result a s =
     \<lparr>service = s, success = True, duration = 0,
      output_text = ''[DRY-RUN] Simulated '' @ action_name a @ '' for '' @ s,
      error = None, resources_created = 0, resources_changed = 0, resources_destroyed = 0,
      retry_count = None\<rparr>"

text \<open>
  \<open>execute_services_in_parallel\<close>: one service runs inline; otherwise a pool is created
  (\<open>ThreadPoolExecutor\<close> raises \<open>ValueError\<close> unless \<open>max_workers\<close> is positive), every
  service is submitted, and the results are collected as the futures complete, that is in the
  order of their finish times. \<open>execute_terraform_for_service\<close> catches every exception,
  so no future raises and the handler around \<open>future.result()\<close> is never entered.
\<close>

definition execute_services_in_parallel ::
  "environment \<Rightarrow> action \<Rightarrow> int \<Rightarrow> service list \<Rightarrow> py_error + exec_result list" where
  "execute_services_in_parallel env a workers services =
     (case services of
        [s] \<Rightarrow> Inr [run_service env a s]
      | _ \<Rightarrow>
          if workers \<le> 0 then Inl ValueError
          else Inr (map (run_service env a) (sort_key (finish_time env) services)))"

text \<open>The three branches of the loop body: the results of one level.\<close>

definition level_results ::
  "args \<Rightarrow> environment \<Rightarrow> service list \<Rightarrow> py_error + exec_result list" where
  "level_results a env level_services =
     (if dry_run a then Inr (map (dry_run_result (action a)) level_services)
      else if parallel a \<and> length level_services > 1 then
        execute_services_in_parallel env (action a) (max_workers a) level_services
      else Inr (map (run_service env (action a)) level_services))"

text \<open>
  The loop over the levels. The state is \<open>all_results\<close> and the list of services handed to
  \<open>execute_terraform_for_service\<close> so far; \<open>Inl\<close> is an exception leaving \<open>main\<close>.
\<close>

fun execute_levels ::
  "args \<Rightarrow> environment \<Rightarrow> service list list \<Rightarrow> exec_result list \<times> service list \<Rightarrow>
   py_error + exec_result list \<times> service list" where
  "execute_levels a env [] st = Inr st"
| "execute_levels a env (level_services # rest) (all_results, invoked) =
     (case level_results a env level_services of
        Inl e \<Rightarrow> Inl e
      | Inr rs \<Rightarrow>
          (let all_results' = all_results @ rs;
               invoked' = (if dry_run a then invoked else invoked @ level_services);
               level_success = list_all success (py_last (length level_services) all_results')
           in if \<not> level_success \<and> \<not> dry_run a then Inr (all_results', invoked')
              else execute_levels a env rest (all_results', invoked')))"

text \<open>
  \<open>main\<close> from the detected services on: nothing to do for an empty list, otherwise the
  levels of \<open>topological_sort\<close> are executed in order.
\<close>

definition orchestrate ::
  "args \<Rightarrow> environment \<Rightarrow> dep_table \<Rightarrow> service list \<Rightarrow>
   py_error + exec_result list \<times> service list" where
  "orchestrate a env T changed_services =
     (if changed_services = [] then Inr ([], [])
      else
        (case topological_sort_deps T changed_services of
           None \<Rightarrow> Inl KeyError
         | Some (w, execution_levels) \<Rightarrow> execute_levels a env execution_levels ([], [])))"

subsection \<open>Change detection\<close>

text \<open>
  The files and the repository a run sees. \<open>wd_name\<close> is \<open>Path(working_dir).name\<close>;
  \<open>wd_iterdir\<close> gives the names of the entries of the working directory; \<open>is_dir\<close>,
  \<open>glob_tf\<close> (the matches of \<open>*.tf\<close>) and \<open>read_text\<close> answer for the path
  \<open>working_dir / name\<close> and a file in it. \<open>changed_list\<close> is \<open>None\<close> when no path of
  an external list is given or the file does not exist, and otherwise the lines of that file.
  \<open>git_diff\<close> gives the paths of the diff of the head commit against a reference.
  Listing the directory, reading a file, reading the external list and asking git can each
  raise; \<open>exists\<close>, \<open>is_dir\<close> and \<open>glob\<close> are taken not to.
\<close>

record filesystem =
  wd_name :: string
  wd_exists :: bool
  wd_iterdir :: "py_error + string list"
  is_dir :: "string \<Rightarrow> bool"
  glob_tf :: "string \<Rightarrow> string list"
  read_text :: "string \<Rightarrow> string \<Rightarrow> py_error + string"
  changed_list :: "(py_error + string list) option"
  git_diff :: "string \<Rightarrow> py_error + string list"

text \<open>\<open>name.startswith('.')\<close>\<close>

definition hidden :: "string \<Rightarrow> bool" where
  "hidden name = prefix ''.'' name"

text \<open>\<open>not base_ref\<close>: the reference is \<open>None\<close> or the empty string.\<close>

definition no_ref :: "string option \<Rightarrow> bool" where
  "no_ref base_ref = (case base_ref of None \<Rightarrow> True | Some r \<Rightarrow> r = [])"

text \<open>The diff of the head commit against \<open>HEAD~1\<close> when the reference is \<open>HEAD\<close>.\<close>

definition diff_paths :: "filesystem \<Rightarrow> string \<Rightarrow> py_error + string list" where
  "diff_paths fs r = git_diff fs (if r = ''HEAD'' then ''HEAD~1'' else r)"

text \<open>The loop of \<open>detect_module_changes\<close> over the paths: the set of module names.\<close>

definition modules_of :: "string list \<Rightarrow> string list" where
  "modules_of file_paths =
     foldl (\<lambda>modules file_path.
        if prefix ''modules/'' file_path then
          (let parts = split_char (CHR ''/'') file_path
           in if length parts \<ge> 2 then set_add (parts ! 1) modules else modules)
        else modules) [] file_paths"

text \<open>Every exception inside \<open>detect_module_changes\<close> is caught and gives the empty set.\<close>

definition detect_module_changes :: "filesystem \<Rightarrow> string option \<Rightarrow> string list \<Rightarrow> string list" where
  "detect_module_changes fs base_ref changed_files =
     (if changed_files \<noteq> [] then modules_of changed_files
      else if \<not> no_ref base_ref then
        (case base_ref of
           None \<Rightarrow> []
         | Some r \<Rightarrow> (case diff_paths fs r of Inl e \<Rightarrow> [] | Inr paths \<Rightarrow> modules_of paths))
      else [])"

text \<open>The test on the content of one file, for one module.\<close>

definition references_module :: "string \<Rightarrow> string \<Rightarrow> bool" where
  "references_module content module_name \<longleftrightarrow>
     py_in (''modules/'' @ module_name) content \<or>
     py_in (''source = '' @ [CHR 0x22] @ ''../../modules/'' @ module_name @ [CHR 0x22]) content"

text \<open>
  The loop over the \<open>.tf\<close> files of one directory: an unreadable file is skipped, a file
  that references one of the modules adds the directory.
\<close>

definition scan_service :: "filesystem \<Rightarrow> string list \<Rightarrow> string list \<Rightarrow> string \<Rightarrow> string list" where
  "scan_service fs modules services name =
     foldl (\<lambda>services tf_file.
        (case read_text fs name tf_file of
           Inl e \<Rightarrow> services
         | Inr content \<Rightarrow>
             if list_ex (references_module content) modules then set_add name services
             else services)) services (glob_tf fs name)"

definition get_services_using_modules :: "filesystem \<Rightarrow> string list \<Rightarrow> py_error + string list" where
  "get_services_using_modules fs modules =
     (if \<not> wd_exists fs then Inr []
      else
        (case wd_iterdir fs of
           Inl e \<Rightarrow> Inl e
         | Inr names \<Rightarrow>
             Inr (foldl (\<lambda>services name.
                    if \<not> is_dir fs name \<or> hidden name then services
                    else scan_service fs modules services name) [] names)))"

text \<open>
  The warning of \<open>detect_changed_services\<close> (with the exception it reports) and the error
  line of \<open>get_all_terraform_services\<close>.
\<close>

datatype log_line = ChangeDetectionFailed py_error | WorkingDirectoryNotFound

definition get_all_terraform_services :: "filesystem \<Rightarrow> log_line list \<times> (py_error + string list)" where
  "get_all_terraform_services fs =
     (if \<not> wd_exists fs then ([WorkingDirectoryNotFound], Inr [])
      else
        (case wd_iterdir fs of
           Inl e \<Rightarrow> ([], Inl e)
         | Inr names \<Rightarrow>
             ([], Inr (sort (filter (\<lambda>item. is_dir fs item \<and> \<not> hidden item \<and> glob_tf fs item \<noteq> [])
                         names)))))"

text \<open>The list of changed files: the external list when it gives any, the git diff otherwise.\<close>

definition read_changed_files :: "filesystem \<Rightarrow> string option \<Rightarrow> py_error + string list" where
  "read_changed_files fs base_ref =
     (case (case changed_list fs of
              None \<Rightarrow> Inr []
            | Some (Inl e) \<Rightarrow> Inl e
            | Some (Inr lines) \<Rightarrow> Inr (filter (\<lambda>l. l \<noteq> []) (map py_strip lines))) of
        Inl e \<Rightarrow> Inl e
      | Inr changed_files \<Rightarrow>
          if changed_files = [] then
            (case base_ref of
               None \<Rightarrow> Inl ValueError
             | Some r \<Rightarrow> if r = [] then Inl ValueError else diff_paths fs r)
          else Inr changed_files)"

text \<open>Step 1 of \<open>detect_changed_services\<close>: the services with a changed file of their own.\<close>

definition direct_services :: "filesystem \<Rightarrow> string list \<Rightarrow> string list" where
  "direct_services fs changed_files =
     foldl (\<lambda>services file_path.
        (let parts = split_char (CHR ''/'') file_path
         in if length parts \<ge> 2 \<and> parts ! 0 = wd_name fs then
              (let service_name = parts ! 1
               in if is_dir fs service_name \<and> glob_tf fs service_name \<noteq> []
                  then set_add service_name services else services)
            else services)) [] changed_files"

text \<open>The body of the \<open>try\<close> of \<open>detect_changed_services\<close>; \<open>Inl\<close> is a raised exception.\<close>

definition detect_try :: "filesystem \<Rightarrow> string option \<Rightarrow> py_error + string list" where
  "detect_try fs base_ref =
     (case read_changed_files fs base_ref of
        Inl e \<Rightarrow> Inl e
      | Inr changed_files \<Rightarrow>
          (let services = direct_services fs changed_files;
               changed_modules = detect_module_changes fs base_ref changed_files
           in if changed_modules \<noteq> [] then
                (case get_services_using_modules fs changed_modules of
                   Inl e \<Rightarrow> Inl e
                 | Inr affected_services \<Rightarrow> Inr (sort (set_update services affected_services)))
              else Inr (sort services)))"

text \<open>The fallback runs inside the handler: what it raises leaves the function.\<close>

definition detect_changed_services ::
  "filesystem \<Rightarrow> string option \<Rightarrow> log_line list \<times> (py_error + string list)" where
  "detect_changed_services fs base_ref =
     (case detect_try fs base_ref of
        Inr services \<Rightarrow> ([], Inr services)
      | Inl e \<Rightarrow>
          (case get_all_terraform_services fs of
             (printed, r) \<Rightarrow> (ChangeDetectionFailed e # printed, r)))"

section \<open>Vocabulary of the properties\<close>

text \<open>
  The prerequisites of a service that are candidates themselves, with their repetitions: the
  in-degree of the service under the restriction to in-set edges is the length of this list.
\<close>

definition in_set_deps :: "dep_table \<Rightarrow> service list \<Rightarrow> service \<Rightarrow> service list" where
  "in_set_deps T services s = filter (\<lambda>p. p \<in> set services) (deps_of T s)"

text \<open>The in-set edges (prerequisite, service); a candidate set is acyclic when they are.\<close>

definition dep_edges :: "dep_table \<Rightarrow> service list \<Rightarrow> (service \<times> service) list" where
  "dep_edges T services =
     concat (map (\<lambda>s. map (\<lambda>p. (p, s)) (in_set_deps T services s)) services)"

text \<open>The index of the first level that holds a service.\<close>

fun level_index :: "service list list \<Rightarrow> service \<Rightarrow> nat option" where
  "level_index [] s = None"
| "level_index (l # ls) s =
     (if s \<in> set l then Some 0 else map_option Suc (level_index ls s))"

text \<open>No service of the level has an in-set prerequisite in the level.\<close>

definition level_independent :: "dep_table \<Rightarrow> service list \<Rightarrow> service list \<Rightarrow> bool" where
  "level_independent T services l \<longleftrightarrow>
     (\<forall>s\<in>set l. \<forall>p\<in>set l. p \<notin> set (in_set_deps T services s))"

text \<open>
  The levels that the leveling loop itself produced: all of them when no warning was printed,
  all but the last when the circular-dependency warning was, none in the fallback.
\<close>

fun leveled :: "warning list \<Rightarrow> service list list \<Rightarrow> service list list" where
  "leveled [] levels = levels"
| "leveled [CircularDependency r] levels = butlast levels"
| "leveled w levels = []"

text \<open>The order in which the services of a level are attempted and reported.\<close>

definition attempt_order :: "args \<Rightarrow> environment \<Rightarrow> service list \<Rightarrow> service list" where
  "attempt_order a env l =
     (if parallel a \<and> length l > 1 then sort_key (finish_time env) l else l)"

text \<open>The number of keys whose stored in-degree is positive: the loop's variant.\<close>

definition pos_count :: "indeg \<Rightarrow> nat" where
  "pos_count d = length (filter (\<lambda>kv. 0 < snd kv) d)"

text \<open>
  The invariant of the leveling loop. For the set \<open>P\<close> of services already placed in a
  level, \<open>pending\<close> lists the in-set prerequisites of a service that are not placed yet;
  the stored in-degree of every candidate is the length of that list, the current level is
  the set of unplaced candidates with nothing pending, and every placed service has all its
  in-set prerequisites in earlier levels.
\<close>

definition pending :: "dep_table \<Rightarrow> service list \<Rightarrow> service set \<Rightarrow> service \<Rightarrow> service list" where
  "pending T services P s = filter (\<lambda>p. p \<in> set services \<and> p \<notin> P) (deps_of T s)"

definition graph_ok :: "dep_table \<Rightarrow> service list \<Rightarrow> graph \<Rightarrow> bool" where
  "graph_ok T services g \<longleftrightarrow>
     (\<forall>c\<in>set services. \<exists>l. map_of g c = Some l \<and>
        (\<forall>x. count_list l x = (if x \<in> set services then count_list (deps_of T x) c else 0)))"

definition level_order :: "dep_table \<Rightarrow> service list \<Rightarrow> service list list \<Rightarrow> bool" where
  "level_order T services levels \<longleftrightarrow>
     (\<forall>i<length levels. \<forall>s\<in>set (levels ! i). \<forall>p\<in>set (in_set_deps T services s).
        \<exists>j<i. p \<in> set (levels ! j))"

definition kahn_inv ::
  "dep_table \<Rightarrow> service list \<Rightarrow> indeg \<Rightarrow> service list list \<Rightarrow> service list \<Rightarrow> bool" where
  "kahn_inv T services d levels cur \<longleftrightarrow>
     set (concat levels) \<subseteq> set services \<and>
     distinct (concat levels) \<and>
     distinct cur \<and>
     (\<forall>s\<in>set services.
        map_of d s = Some (int (length (pending T services (set (concat levels)) s)))) \<and>
     set cur =
       {s \<in> set services. s \<notin> set (concat levels) \<and>
          pending T services (set (concat levels)) s = []} \<and>
     level_order T services levels"

text \<open>
  A rank for the table of the source: every prerequisite it names ranks below the service.
\<close>

definition tier :: "service \<Rightarrow> nat" where
  "tier s = (if s = ''identity'' then 0 else if s = ''network'' then 1 else 2)"

text \<open>The candidates that no level holds.\<close>

definition unplaced :: "service list \<Rightarrow> service list list \<Rightarrow> service list" where
  "unplaced services levels = filter (\<lambda>s. s \<notin> set (concat levels)) services"

text \<open>
  Sample inputs: a plan run in which \<open>network\<close> fails, and a working directory
  \<open>toronto\<close> with the directories \<open>network\<close>, \<open>.staging\<close>, \<open>compute\<close> and \<open>docs\<close>,
  where \<open>network\<close> and \<open>.staging\<close> use the shared module \<open>net-common\<close>, \<open>docs\<close> has
  no \<open>.tf\<close> file, and the external list names one changed file of that module.
\<close>

definition sample_env :: environment where
  "sample_env =
     \<lparr>init_outcome = (\<lambda>s. Completed 0 [] []),
      run_outcome = (\<lambda>s. if s = ''network'' then Completed 1 [] ''boom'' else Completed 0 [] []),
      elapsed = (\<lambda>s. 1),
      finish_time = (\<lambda>s. 0)\<rparr>"

definition sample_args :: args where
  "sample_args = \<lparr>action = Plan, dry_run = False, parallel = False, max_workers = 3\<rparr>"

definition sample_fs :: filesystem where
  "sample_fs =
     \<lparr>wd_name = ''toronto'', wd_exists = True,
      wd_iterdir = Inr [''network'', ''.staging'', ''compute'', ''docs''],
      is_dir = (\<lambda>n. True),
      glob_tf = (\<lambda>n. if n = ''docs'' then [] else [''main.tf'']),
      read_text = (\<lambda>n f. if n = ''compute'' then Inr ''resource x {}''
         else Inr (''module net { source = '' @ [CHR 0x22] @ ''../../modules/net-common'' @ [CHR 0x22] @ '' }'')),
      changed_list = Some (Inr [''modules/net-common/main.tf'' @ [newline]]),
      git_diff = (\<lambda>r. Inl GitError)\<rparr>"

section \<open>Termination of the leveling loop\<close>

lemma pos_count_update:
  "map_of d k = Some n \<Longrightarrow>
   pos_count (AList.update k v d) + (if 0 < n then 1 else 0) =
   pos_count d + (if 0 < v then 1 else 0)"
  by (induction d) (auto simp: pos_count_def)

lemma relax_pos_count:
  "relax xs (d, nl) = Some (d', nl') \<Longrightarrow>
   pos_count d' + length nl' = pos_count d + length nl"
proof (induction xs arbitrary: d nl)
  case Nil
  then show ?case by simp
next
  case (Cons x xs)
  from Cons.prems obtain n where n: "map_of d x = Some n"
    by (auto split: option.splits)
  let ?d = "AList.update x (n - 1) d"
  let ?nl = "if n - 1 = 0 then nl @ [x] else nl"
  from Cons.prems n have "relax xs (?d, ?nl) = Some (d', nl')" by simp
  from Cons.IH [OF this] have "pos_count d' + length nl' = pos_count ?d + length ?nl" .
  moreover have "pos_count ?d + length ?nl = pos_count d + length nl"
  proof -
    consider "n \<le> 0" | "n = 1" | "1 < n" by linarith
    then show ?thesis
      using pos_count_update [OF n, of "n - 1"] by cases auto
  qed
  ultimately show ?case by simp
qed

lemma process_level_pos_count:
  "process_level g cur (d, nl) = Some (d', nl') \<Longrightarrow>
   pos_count d' + length nl' = pos_count d + length nl"
proof (induction cur arbitrary: d nl)
  case Nil
  then show ?case by simp
next
  case (Cons c cur)
  from Cons.prems obtain l d1 nl1 where
    "relax l (d, nl) = Some (d1, nl1)" "process_level g cur (d1, nl1) = Some (d', nl')"
    by (auto split: option.splits)
  with Cons.IH relax_pos_count show ?case by fastforce
qed

termination kahn_loop
proof (relation "measure (\<lambda>(g, d, levels, cur). if cur = [] then 0 else Suc (pos_count d))")
  show "wf (measure (\<lambda>(g, d, levels, cur). if cur = [] then 0 else Suc (pos_count d)))"
    by simp
next
  fix g :: graph and d :: indeg and levels :: "service list list"
    and current_level :: "service list" and x2 d' next_level
  assume ne: "current_level \<noteq> []"
    and pl: "process_level g current_level (d, []) = Some x2"
    and x2: "(d', next_level) = x2"
  from pl x2 have "process_level g current_level (d, []) = Some (d', next_level)" by simp
  from process_level_pos_count [OF this]
  have "pos_count d' + length next_level = pos_count d" by simp
  then have "next_level \<noteq> [] \<Longrightarrow> pos_count d' < pos_count d"
    by (cases next_level) auto
  with ne show "((g, d', levels @ [sort current_level], next_level), (g, d, levels, current_level))
      \<in> measure (\<lambda>(g, d, levels, cur). if cur = [] then 0 else Suc (pos_count d))"
    by auto
qed

declare kahn_loop.simps [simp del]

section \<open>Properties of the dependency ordering\<close>

lemma init_nodes_lookup:
  "init_nodes ss (g, d) = (g', d') \<Longrightarrow>
   map_of g' c = (if c \<in> set ss then Some [] else map_of g c) \<and>
   map_of d' c = (if c \<in> set ss then Some 0 else map_of d c)"
  by (induction ss arbitrary: g d) (auto simp: update_conv')

lemma add_deps_lookup:
  assumes "\<forall>c\<in>set services. map_of g c \<noteq> None" and "map_of d s = Some n"
  shows "\<exists>g' d'. add_deps services s ds (g, d) = Some (g', d') \<and>
     (\<forall>c. map_of g' c =
        (if c \<in> set services then map_option (\<lambda>l. l @ replicate (count_list ds c) s) (map_of g c)
         else map_of g c)) \<and>
     map_of d' = (map_of d)(s \<mapsto> n + int (length (filter (\<lambda>p. p \<in> set services) ds)))"
  using assms
proof (induction ds arbitrary: g d n)
  case Nil
  then show ?case by (auto simp: option.map_ident)
next
  case (Cons p ds)
  show ?case
  proof (cases "p \<in> set services")
    case False
    with Cons.IH [OF Cons.prems] show ?thesis by auto
  next
    case True
    with Cons.prems obtain l where l: "map_of g p = Some l" by auto
    let ?g = "AList.update p (l @ [s]) g"
    let ?d = "AList.update s (n + 1) d"
    have 1: "\<forall>c\<in>set services. map_of ?g c \<noteq> None"
      using Cons.prems(1) by (simp add: update_conv')
    have 2: "map_of ?d s = Some (n + 1)" by (simp add: update_conv')
    from Cons.IH [OF 1 2] obtain g' d' where
      r: "add_deps services s ds (?g, ?d) = Some (g', d')"
      and g': "\<And>c. map_of g' c =
        (if c \<in> set services then map_option (\<lambda>l. l @ replicate (count_list ds c) s) (map_of ?g c)
         else map_of ?g c)"
      and d': "map_of d' = (map_of ?d)(s \<mapsto> n + 1 + int (length (filter (\<lambda>p. p \<in> set services) ds)))"
      by blast
    have "add_deps services s (p # ds) (g, d) = Some (g', d')"
      using True l Cons.prems(2) r by simp
    moreover have "map_of g' c =
        (if c \<in> set services then map_option (\<lambda>l. l @ replicate (count_list (p # ds) c) s) (map_of g c)
         else map_of g c)" for c
      using g' [of c] True l
      by (auto simp: update_conv' replicate_append_same)
    moreover have "map_of d' = (map_of d)(s \<mapsto> n + int (length (filter (\<lambda>p. p \<in> set services) (p # ds))))"
      using d' True by (simp add: update_conv' add.assoc)
    ultimately show ?thesis by blast
  qed
qed

lemma count_list_replicate:
  "count_list (replicate k s) x = (if x = s then k else 0)"
  by (induction k) auto

lemma add_edges_lookup:
  assumes "set ss \<subseteq> set services"
    and "\<forall>c\<in>set services. map_of g c \<noteq> None"
    and "\<forall>c\<in>set services. map_of d c \<noteq> None"
  shows "\<exists>g' d'. add_edges T services ss (g, d) = Some (g', d') \<and>
     (\<forall>c\<in>set services. \<exists>l l'. map_of g c = Some l \<and> map_of g' c = Some l' \<and>
        (\<forall>x. count_list l' x = count_list l x + count_list ss x * count_list (deps_of T x) c)) \<and>
     (\<forall>z\<in>set services. \<exists>n. map_of d z = Some n \<and>
        map_of d' z = Some (n + int (count_list ss z * length (in_set_deps T services z))))"
  using assms
proof (induction ss arbitrary: g d)
  case Nil
  then show ?case by auto
next
  case (Cons s ss)
  from Cons.prems have s: "s \<in> set services" and ss: "set ss \<subseteq> set services" by auto
  from Cons.prems(3) s obtain n where n: "map_of d s = Some n" by auto
  from add_deps_lookup [OF Cons.prems(2) n, of "deps_of T s"] obtain g1 d1 where
    r1: "add_deps services s (deps_of T s) (g, d) = Some (g1, d1)"
    and g1: "\<And>c. map_of g1 c =
        (if c \<in> set services
         then map_option (\<lambda>l. l @ replicate (count_list (deps_of T s) c) s) (map_of g c)
         else map_of g c)"
    and d1: "map_of d1 = (map_of d)(s \<mapsto> n + int (length (in_set_deps T services s)))"
    unfolding in_set_deps_def by blast
  have g1_some: "\<forall>c\<in>set services. map_of g1 c \<noteq> None"
    using g1 Cons.prems(2) by auto
  have d1_some: "\<forall>c\<in>set services. map_of d1 c \<noteq> None"
    using d1 Cons.prems(3) by auto
  from Cons.IH [OF ss g1_some d1_some] obtain g' d' where
    r2: "add_edges T services ss (g1, d1) = Some (g', d')"
    and g': "\<And>c. c \<in> set services \<Longrightarrow> \<exists>l l'. map_of g1 c = Some l \<and> map_of g' c = Some l' \<and>
        (\<forall>x. count_list l' x = count_list l x + count_list ss x * count_list (deps_of T x) c)"
    and d': "\<And>z. z \<in> set services \<Longrightarrow> \<exists>n. map_of d1 z = Some n \<and>
        map_of d' z = Some (n + int (count_list ss z * length (in_set_deps T services z)))"
    by blast
  have "add_edges T services (s # ss) (g, d) = Some (g', d')"
    using r1 r2 by simp
  moreover have "\<exists>l l'. map_of g c = Some l \<and> map_of g' c = Some l' \<and>
        (\<forall>x. count_list l' x =
           count_list l x + count_list (s # ss) x * count_list (deps_of T x) c)"
    if c: "c \<in> set services" for c
  proof -
    from Cons.prems(2) c obtain l where l: "map_of g c = Some l" by auto
    with g1 [of c] c have l1: "map_of g1 c = Some (l @ replicate (count_list (deps_of T s) c) s)"
      by simp
    from g' [OF c] l1 obtain l' where l': "map_of g' c = Some l'"
      and cnt: "\<And>x. count_list l' x =
        count_list (l @ replicate (count_list (deps_of T s) c) s) x +
        count_list ss x * count_list (deps_of T x) c"
      by auto
    have "count_list l' x =
           count_list l x + count_list (s # ss) x * count_list (deps_of T x) c" for x
      using cnt [of x] by (auto simp: count_list_replicate)
    with l l' show ?thesis by blast
  qed
  moreover have "\<exists>n. map_of d z = Some n \<and>
        map_of d' z = Some (n + int (count_list (s # ss) z * length (in_set_deps T services z)))"
    if z: "z \<in> set services" for z
  proof -
    from Cons.prems(3) z obtain m where m: "map_of d z = Some m" by auto
    from d' [OF z] obtain k where k: "map_of d1 z = Some k"
      and dz: "map_of d' z = Some (k + int (count_list ss z * length (in_set_deps T services z)))"
      by blast
    show ?thesis
    proof (cases "z = s")
      case True
      with k d1 have "k = n + int (length (in_set_deps T services s))" by simp
      with dz m n True show ?thesis by (simp add: algebra_simps)
    next
      case False
      with k d1 m have "k = m" by simp
      with dz m False show ?thesis by simp
    qed
  qed
  ultimately show ?case by blast
qed

lemma build_graph_lookup:
  "\<exists>g d. build_graph T services = Some (g, d) \<and>
     (\<forall>c\<in>set services. \<exists>l. map_of g c = Some l \<and>
        (\<forall>x. count_list l x = count_list services x * count_list (deps_of T x) c)) \<and>
     (\<forall>z\<in>set services.
        map_of d z = Some (int (count_list services z * length (in_set_deps T services z))))"
proof -
  obtain g0 d0 where i: "init_nodes services ([], []) = (g0, d0)"
    by (cases "init_nodes services ([], [])")
  note look = init_nodes_lookup [OF i]
  have g0: "\<forall>c\<in>set services. map_of g0 c \<noteq> None" using look by simp
  have d0: "\<forall>c\<in>set services. map_of d0 c \<noteq> None" using look by simp
  from add_edges_lookup [OF subset_refl g0 d0, of T] obtain g d where
    r: "add_edges T services services (g0, d0) = Some (g, d)"
    and g: "\<And>c. c \<in> set services \<Longrightarrow> \<exists>l l'. map_of g0 c = Some l \<and> map_of g c = Some l' \<and>
        (\<forall>x. count_list l' x = count_list l x + count_list services x * count_list (deps_of T x) c)"
    and d: "\<And>z. z \<in> set services \<Longrightarrow> \<exists>n. map_of d0 z = Some n \<and>
        map_of d z = Some (n + int (count_list services z * length (in_set_deps T services z)))"
    by blast
  have "build_graph T services = Some (g, d)"
    using i r by (simp add: build_graph_def)
  moreover have "\<exists>l. map_of g c = Some l \<and>
        (\<forall>x. count_list l x = count_list services x * count_list (deps_of T x) c)"
    if "c \<in> set services" for c
    using g [OF that] look [of c] that by auto
  moreover have "map_of d z = Some (int (count_list services z * length (in_set_deps T services z)))"
    if "z \<in> set services" for z
    using d [OF that] look [of z] that by auto
  ultimately show ?thesis by blast
qed

lemma relax_append:
  "relax (xs @ ys) st = (case relax xs st of None \<Rightarrow> None | Some st' \<Rightarrow> relax ys st')"
proof (induction xs arbitrary: st)
  case Nil
  then show ?case by simp
next
  case (Cons x xs)
  then show ?case by (cases st) (auto split: option.splits)
qed

lemma process_level_relax:
  "\<forall>c\<in>set cur. map_of g c \<noteq> None \<Longrightarrow>
   process_level g cur st = relax (concat (map (\<lambda>c. the (map_of g c)) cur)) st"
proof (induction cur arbitrary: st)
  case Nil
  then show ?case by simp
next
  case (Cons c cur)
  then show ?case by (auto simp: relax_append split: option.splits)
qed

lemma relax_lookup:
  assumes "\<forall>x\<in>set xs. map_of d x \<noteq> None"
  shows "\<exists>d' add. relax xs (d, nl) = Some (d', nl @ add) \<and>
     (\<forall>z. map_of d' z = map_option (\<lambda>n. n - int (count_list xs z)) (map_of d z)) \<and>
     distinct add \<and>
     set add = {z. \<exists>n. map_of d z = Some n \<and> 0 < n \<and> n \<le> int (count_list xs z)}"
  using assms
proof (induction xs arbitrary: d nl)
  case Nil
  then show ?case by (auto simp: option.map_ident)
next
  case (Cons x xs)
  from Cons.prems obtain n where n: "map_of d x = Some n" by auto
  let ?d = "AList.update x (n - 1) d"
  let ?h = "if n - 1 = 0 then [x] else []"
  have look: "map_of ?d z = (if z = x then Some (n - 1) else map_of d z)" for z
    by (simp add: update_conv')
  have pre: "\<forall>y\<in>set xs. map_of ?d y \<noteq> None"
    using Cons.prems by (simp add: look)
  from Cons.IH [OF pre, of "nl @ ?h"] obtain d' add where
    r: "relax xs (?d, nl @ ?h) = Some (d', (nl @ ?h) @ add)"
    and d': "\<And>z. map_of d' z = map_option (\<lambda>n. n - int (count_list xs z)) (map_of ?d z)"
    and dist: "distinct add"
    and add: "set add = {z. \<exists>m. map_of ?d z = Some m \<and> 0 < m \<and> m \<le> int (count_list xs z)}"
    by blast
  have "relax (x # xs) (d, nl) = Some (d', nl @ (?h @ add))"
    using n r by (auto split: if_splits)
  moreover have "map_of d' z = map_option (\<lambda>n. n - int (count_list (x # xs) z)) (map_of d z)" for z
    using d' [of z] n by (cases "z = x") (auto simp: look)
  moreover have "distinct (?h @ add)"
    using dist add by (auto simp: look)
  moreover have "set (?h @ add) =
      {z. \<exists>m. map_of d z = Some m \<and> 0 < m \<and> m \<le> int (count_list (x # xs) z)}"
  proof (rule set_eqI)
    fix z
    show "z \<in> set (?h @ add) \<longleftrightarrow>
      z \<in> {z. \<exists>m. map_of d z = Some m \<and> 0 < m \<and> m \<le> int (count_list (x # xs) z)}"
    proof (cases "z = x")
      case True
      have "x \<in> set add \<longleftrightarrow> 0 < n - 1 \<and> n - 1 \<le> int (count_list xs x)"
        unfolding add by (simp add: look)
      then show ?thesis using True n by auto
    next
      case False
      then show ?thesis unfolding set_append add by (auto simp: look)
    qed
  qed
  ultimately show ?case by blast
qed

lemma sum_count_distinct:
  "distinct cur \<Longrightarrow>
   (\<Sum>c\<leftarrow>cur. count_list xs c) = length (filter (\<lambda>p. p \<in> set cur) xs)"
proof (induction cur)
  case Nil
  then show ?case by simp
next
  case (Cons c cur)
  have "length (filter (\<lambda>p. p \<in> set (c # cur)) xs) =
        count_list xs c + length (filter (\<lambda>p. p \<in> set cur) xs)"
    using Cons.prems by (induction xs) auto
  with Cons show ?case by simp
qed

lemma length_filter_split:
  "(\<And>x. C x \<Longrightarrow> A x) \<Longrightarrow>
   length (filter A xs) = length (filter (\<lambda>x. A x \<and> \<not> C x) xs) + length (filter C xs)"
  by (induction xs) auto

lemma graph_ok_edges:
  assumes g: "graph_ok T services g" and cur: "set cur \<subseteq> set services" and dist: "distinct cur"
  shows "count_list (concat (map (\<lambda>c. the (map_of g c)) cur)) z =
    (if z \<in> set services then length (filter (\<lambda>p. p \<in> set cur) (deps_of T z)) else 0)"
proof -
  have "count_list (the (map_of g c)) z =
      (if z \<in> set services then count_list (deps_of T z) c else 0)" if "c \<in> set cur" for c
    using g cur that unfolding graph_ok_def by fastforce
  then have "(\<Sum>c\<leftarrow>cur. count_list (the (map_of g c)) z) =
      (\<Sum>c\<leftarrow>cur. if z \<in> set services then count_list (deps_of T z) c else 0)"
    by (intro arg_cong [where f = sum_list] map_cong) auto
  also have "\<dots> = (if z \<in> set services then (\<Sum>c\<leftarrow>cur. count_list (deps_of T z) c) else 0)"
    by (simp add: sum_list_0)
  finally show ?thesis
    by (simp add: count_list_concat comp_def sum_count_distinct [OF dist])
qed

lemma in_concat_nth:
  "s \<in> set (concat levels) \<longleftrightarrow> (\<exists>i<length levels. s \<in> set (levels ! i))"
proof -
  have "(\<exists>l\<in>set levels. s \<in> set l) \<longleftrightarrow> (\<exists>i<length levels. s \<in> set (levels ! i))"
    by (metis in_set_conv_nth)
  then show ?thesis by simp
qed

lemma level_order_pending:
  assumes "level_order T services levels" and "s \<in> set (concat levels)"
  shows "pending T services (set (concat levels)) s = []"
proof -
  from assms(2) [unfolded in_concat_nth] obtain i
    where i: "i < length levels" "s \<in> set (levels ! i)"
    by blast
  have "p \<in> set (concat levels)" if "p \<in> set (in_set_deps T services s)" for p
  proof -
    from assms(1) i that obtain j where "j < i" "p \<in> set (levels ! j)"
      unfolding level_order_def by blast
    with i(1) show ?thesis unfolding in_concat_nth by (intro exI [of _ j]) simp
  qed
  then show ?thesis
    by (auto simp: pending_def in_set_deps_def filter_empty_conv)
qed

lemma level_order_snoc:
  assumes "level_order T services levels"
    and "\<And>s. s \<in> set l \<Longrightarrow> pending T services (set (concat levels)) s = []"
  shows "level_order T services (levels @ [l])"
  unfolding level_order_def
proof (intro allI impI ballI)
  fix i s p
  assume i: "i < length (levels @ [l])" and s: "s \<in> set ((levels @ [l]) ! i)"
    and p: "p \<in> set (in_set_deps T services s)"
  show "\<exists>j<i. p \<in> set ((levels @ [l]) ! j)"
  proof (cases "i < length levels")
    case True
    with s have "s \<in> set (levels ! i)" by (simp add: nth_append)
    with assms(1) True p obtain j where "j < i" "p \<in> set (levels ! j)"
      unfolding level_order_def by blast
    with True show ?thesis by (auto simp: nth_append intro!: exI [of _ j])
  next
    case False
    with i have il: "i = length levels" by simp
    with s have "s \<in> set l" by simp
    from assms(2) [OF this] p have "p \<in> set (concat levels)"
      by (auto simp: pending_def in_set_deps_def filter_empty_conv)
    then obtain j where "j < length levels" "p \<in> set (levels ! j)"
      unfolding in_concat_nth by blast
    with il show ?thesis by (auto simp: nth_append intro!: exI [of _ j])
  qed
qed

lemma kahn_step:
  assumes g: "graph_ok T services g" and inv: "kahn_inv T services d levels cur"
  shows "\<exists>d' nl. process_level g cur (d, []) = Some (d', nl) \<and>
           kahn_inv T services d' (levels @ [sort cur]) nl"
proof -
  let ?S = "set services"
  let ?P = "set (concat levels)"
  let ?P' = "set (concat (levels @ [sort cur]))"
  let ?es = "concat (map (\<lambda>c. the (map_of g c)) cur)"
  have P': "?P' = ?P \<union> set cur" by simp
  from inv have PS: "?P \<subseteq> ?S" and dl: "distinct (concat levels)" and dc: "distinct cur"
    and dS: "\<And>s. s \<in> ?S \<Longrightarrow> map_of d s = Some (int (length (pending T services ?P s)))"
    and cur: "set cur = {s \<in> ?S. s \<notin> ?P \<and> pending T services ?P s = []}"
    and lo: "level_order T services levels"
    unfolding kahn_inv_def by auto
  from cur have curS: "set cur \<subseteq> ?S" and curP: "set cur \<inter> ?P = {}" by auto
  have cnt: "count_list ?es z =
      (if z \<in> ?S then length (filter (\<lambda>p. p \<in> set cur) (deps_of T z)) else 0)" for z
    by (rule graph_ok_edges [OF g curS dc])
  have gsome: "\<forall>c\<in>set cur. map_of g c \<noteq> None"
    using g curS unfolding graph_ok_def by fastforce
  have esS: "set ?es \<subseteq> ?S"
  proof
    fix x assume "x \<in> set ?es"
    then have "count_list ?es x \<noteq> 0" by (simp only: count_list_0_iff) simp
    with cnt [of x] show "x \<in> ?S" by (auto split: if_splits)
  qed
  have dsome: "\<forall>x\<in>set ?es. map_of d x \<noteq> None"
    using esS dS by fastforce
  from relax_lookup [OF dsome, of "[]"] obtain d' add where
    r: "relax ?es (d, []) = Some (d', add)"
    and d': "\<And>z. map_of d' z = map_option (\<lambda>n. n - int (count_list ?es z)) (map_of d z)"
    and da: "distinct add"
    and add: "set add = {z. \<exists>n. map_of d z = Some n \<and> 0 < n \<and> n \<le> int (count_list ?es z)}"
    by auto
  have pl: "process_level g cur (d, []) = Some (d', add)"
    using process_level_relax [OF gsome] r by simp
  have split: "length (pending T services ?P z) =
      length (pending T services ?P' z) + length (filter (\<lambda>p. p \<in> set cur) (deps_of T z))" for z
  proof -
    have "length (filter (\<lambda>p. p \<in> ?S \<and> p \<notin> ?P) (deps_of T z)) =
        length (filter (\<lambda>p. (p \<in> ?S \<and> p \<notin> ?P) \<and> \<not> p \<in> set cur) (deps_of T z)) +
        length (filter (\<lambda>p. p \<in> set cur) (deps_of T z))"
      by (rule length_filter_split) (use curS curP in auto)
    moreover have "filter (\<lambda>p. (p \<in> ?S \<and> p \<notin> ?P) \<and> \<not> p \<in> set cur) (deps_of T z) =
        pending T services ?P' z"
      unfolding pending_def P' by (rule filter_cong) auto
    ultimately show ?thesis by (simp add: pending_def)
  qed
  have d'S: "map_of d' z = Some (int (length (pending T services ?P' z)))" if "z \<in> ?S" for z
    using d' [of z] dS [OF that] cnt [of z] split [of z] that by simp
  have lop: "pending T services ?P s = []" if "s \<in> ?P" for s
    using level_order_pending [OF lo that] .
  have add': "set add = {s \<in> ?S. s \<notin> ?P' \<and> pending T services ?P' s = []}"
  proof (rule set_eqI)
    fix z
    show "z \<in> set add \<longleftrightarrow> z \<in> {s \<in> ?S. s \<notin> ?P' \<and> pending T services ?P' s = []}"
    proof (cases "z \<in> ?S")
      case False
      then show ?thesis unfolding add using cnt [of z] by auto
    next
      case True
      have "z \<in> set add \<longleftrightarrow>
          pending T services ?P z \<noteq> [] \<and> pending T services ?P' z = []"
        unfolding add using dS [OF True] cnt [of z] split [of z] True by auto
      also have "\<dots> \<longleftrightarrow> z \<notin> ?P' \<and> pending T services ?P' z = []"
        using lop [of z] cur True unfolding P' by auto
      finally show ?thesis using True by simp
    qed
  qed
  have "kahn_inv T services d' (levels @ [sort cur]) add"
    unfolding kahn_inv_def
  proof (intro conjI ballI)
    show "?P' \<subseteq> ?S" using PS curS by simp
    show "distinct (concat (levels @ [sort cur]))" using dl dc curP by auto
    show "distinct add" by (rule da)
    show "map_of d' s = Some (int (length (pending T services ?P' s)))" if "s \<in> ?S" for s
      by (rule d'S [OF that])
    show "set add = {s \<in> ?S. s \<notin> ?P' \<and> pending T services ?P' s = []}" by (rule add')
    show "level_order T services (levels @ [sort cur])"
      by (rule level_order_snoc [OF lo]) (use cur in auto)
  qed
  with pl show ?thesis by blast
qed

lemma kahn_loop_inv:
  assumes "graph_ok T services g" and "kahn_inv T services d levels cur"
  shows "\<exists>d' levels'. kahn_loop g d levels cur = Some (d', levels') \<and>
           kahn_inv T services d' levels' []"
  using assms
proof (induction g d levels cur rule: kahn_loop.induct)
  case (1 g d levels cur)
  show ?case
  proof (cases "cur = []")
    case True
    with "1.prems" show ?thesis by (simp add: kahn_loop.simps)
  next
    case False
    from kahn_step [OF "1.prems"] obtain d1 nl where
      pl: "process_level g cur (d, []) = Some (d1, nl)"
      and inv1: "kahn_inv T services d1 (levels @ [sort cur]) nl"
      by blast
    from "1.IH" [OF False pl refl "1.prems"(1) inv1] obtain d' levels' where
      "kahn_loop g d1 (levels @ [sort cur]) nl = Some (d', levels')"
      "kahn_inv T services d' levels' []"
      by blast
    with False pl show ?thesis by (subst kahn_loop.simps) simp
  qed
qed

lemma distinct_count_list:
  "distinct xs \<Longrightarrow> count_list xs x = (if x \<in> set xs then 1 else 0)"
  by (induction xs) auto

lemma select_by_filter:
  "\<forall>s\<in>set ss. map_of d s = Some (f s) \<Longrightarrow>
   select_by P d ss = Some (filter (\<lambda>s. P (f s)) ss)"
  by (induction ss) auto

lemma pending_empty: "pending T services {} s = in_set_deps T services s"
  by (simp add: pending_def in_set_deps_def)

lemma build_graph_distinct:
  assumes "distinct services"
  shows "\<exists>g d. build_graph T services = Some (g, d) \<and> graph_ok T services g \<and>
     (\<forall>z\<in>set services. map_of d z = Some (int (length (in_set_deps T services z))))"
proof -
  from build_graph_lookup [of T services] obtain g d where
    b: "build_graph T services = Some (g, d)"
    and g: "\<And>c. c \<in> set services \<Longrightarrow> \<exists>l. map_of g c = Some l \<and>
        (\<forall>x. count_list l x = count_list services x * count_list (deps_of T x) c)"
    and d: "\<And>z. z \<in> set services \<Longrightarrow>
        map_of d z = Some (int (count_list services z * length (in_set_deps T services z)))"
    by blast
  have "graph_ok T services g"
    unfolding graph_ok_def using g by (fastforce simp: distinct_count_list [OF assms])
  moreover have "map_of d z = Some (int (length (in_set_deps T services z)))"
    if "z \<in> set services" for z
    using d [OF that] that by (simp add: distinct_count_list [OF assms])
  ultimately show ?thesis using b by blast
qed

lemma fallback_result:
  assumes "\<forall>s\<in>set services. in_set_deps T services s \<noteq> []"
  shows "topological_sort_deps T services =
     Some ([NoZeroDependencies], map (\<lambda>s. [s]) services)"
proof -
  from build_graph_lookup [of T services] obtain g d where
    b: "build_graph T services = Some (g, d)"
    and d: "\<forall>z\<in>set services.
        map_of d z = Some (int (count_list services z * length (in_set_deps T services z)))"
    by blast
  have "filter (\<lambda>s. int (count_list services s * length (in_set_deps T services s)) = 0) services = []"
    using assms by (auto simp: filter_empty_conv count_list_0_iff)
  with select_by_filter [OF d, of "\<lambda>n. n = 0"]
  have "select_by (\<lambda>n. n = 0) d services = Some []" by simp
  with b show ?thesis by (simp add: topological_sort_deps_def)
qed

lemma kahn_result:
  assumes dist: "distinct services"
    and zero: "\<exists>s\<in>set services. in_set_deps T services s = []"
  shows "\<exists>d' levels. kahn_inv T services d' levels [] \<and>
     topological_sort_deps T services =
       Some (if set (concat levels) = set services then ([], levels)
             else ([CircularDependency (unplaced services levels)],
                   levels @ [sort (unplaced services levels)]))"
proof -
  let ?S = "set services"
  from build_graph_distinct [OF dist, of T] obtain g d where
    b: "build_graph T services = Some (g, d)"
    and g: "graph_ok T services g"
    and d: "\<forall>z\<in>?S. map_of d z = Some (int (length (in_set_deps T services z)))"
    by blast
  let ?cur = "filter (\<lambda>s. int (length (in_set_deps T services s)) = 0) services"
  have sel: "select_by (\<lambda>n. n = 0) d services = Some ?cur"
    by (rule select_by_filter [OF d])
  have ne: "?cur \<noteq> []" using zero by (auto simp: filter_empty_conv)
  have inv0: "kahn_inv T services d [] ?cur"
    unfolding kahn_inv_def using dist d
    by (auto simp: pending_empty level_order_def)
  from kahn_loop_inv [OF g inv0] obtain d' levels where
    k: "kahn_loop g d [] ?cur = Some (d', levels)"
    and inv: "kahn_inv T services d' levels []"
    by blast
  let ?P = "set (concat levels)"
  from inv have PS: "?P \<subseteq> ?S" and dl: "distinct (concat levels)"
    and d'S: "\<forall>s\<in>?S. map_of d' s = Some (int (length (pending T services ?P s)))"
    and cur: "{s \<in> ?S. s \<notin> ?P \<and> pending T services ?P s = []} = {}"
    and lo: "level_order T services levels"
    unfolding kahn_inv_def by auto
  have "sum_list (map length levels) = length (concat levels)"
    by (simp add: length_concat)
  also have "\<dots> = card ?P" by (rule distinct_card [OF dl, symmetric])
  finally have "sum_list (map length levels) = card ?P" .
  moreover have "length services = card ?S" using dist by (simp add: distinct_card)
  moreover have "card ?P = card ?S \<longleftrightarrow> ?P = ?S"
  proof
    assume "card ?P = card ?S"
    then show "?P = ?S" by (rule card_subset_eq [OF finite_set PS])
  next
    assume "?P = ?S"
    then show "card ?P = card ?S" by (rule arg_cong)
  qed
  ultimately have eq: "sum_list (map length levels) = length services \<longleftrightarrow> ?P = ?S" by simp
  have "filter (\<lambda>s. 0 < int (length (pending T services ?P s))) services =
      unplaced services levels"
    unfolding unplaced_def
  proof (rule filter_cong [OF refl])
    fix s assume s: "s \<in> ?S"
    show "0 < int (length (pending T services ?P s)) \<longleftrightarrow> s \<notin> ?P"
      using level_order_pending [OF lo, of s] cur s by auto
  qed
  with select_by_filter [OF d'S, of "\<lambda>n. 0 < n"]
  have rem: "select_by (\<lambda>n. 0 < n) d' services = Some (unplaced services levels)" by simp
  have "topological_sort_deps T services =
       Some (if ?P = ?S then ([], levels)
             else ([CircularDependency (unplaced services levels)],
                   levels @ [sort (unplaced services levels)]))"
    using b sel ne k eq rem by (simp add: topological_sort_deps_def)
  with inv show ?thesis by blast
qed

lemma dep_edges_iff:
  "(p, s) \<in> set (dep_edges T services) \<longleftrightarrow>
     s \<in> set services \<and> p \<in> set (in_set_deps T services s)"
  by (auto simp: dep_edges_def)

lemma level_index_first:
  "i < length ls \<Longrightarrow> s \<in> set (ls ! i) \<Longrightarrow>
   \<exists>j\<le>i. level_index ls s = Some j \<and> s \<in> set (ls ! j)"
proof (induction ls arbitrary: i)
  case Nil
  then show ?case by simp
next
  case (Cons l ls)
  show ?case
  proof (cases "s \<in> set l")
    case True
    then show ?thesis by auto
  next
    case False
    with Cons.prems obtain k where k: "i = Suc k" by (cases i) auto
    with Cons.prems have "k < length ls" "s \<in> set (ls ! k)" by auto
    from Cons.IH [OF this] obtain j where "j \<le> k" "level_index ls s = Some j" "s \<in> set (ls ! j)"
      by blast
    with False k show ?thesis by (auto intro!: exI [of _ "Suc j"])
  qed
qed

lemma acyclic_minimal:
  assumes ac: "acyclic (set (dep_edges T services))" and R: "R \<noteq> {}"
  shows "\<exists>z\<in>R. \<forall>y. (y, z) \<in> set (dep_edges T services) \<longrightarrow> y \<notin> R"
proof -
  have "wf (set (dep_edges T services))" using ac by (simp add: wf_set)
  with R show ?thesis unfolding wf_eq_minimal by blast
qed

lemma acyclic_result:
  assumes dist: "distinct services" and ac: "acyclic (set (dep_edges T services))"
  shows "\<exists>w levels. topological_sort_deps T services = Some (w, levels) \<and>
     level_order T services levels \<and> distinct (concat levels) \<and>
     set (concat levels) = set services"
proof (cases "services = []")
  case True
  then have "topological_sort_deps T services = Some ([NoZeroDependencies], [])"
    using fallback_result [of services T] by simp
  with True show ?thesis by (simp add: level_order_def)
next
  case False
  let ?S = "set services"
  from False have "?S \<noteq> {}" by simp
  from acyclic_minimal [OF ac this] obtain z where
    z: "z \<in> ?S" "\<forall>y. (y, z) \<in> set (dep_edges T services) \<longrightarrow> y \<notin> ?S" by blast
  have "in_set_deps T services z = []"
  proof (rule ccontr)
    assume "in_set_deps T services z \<noteq> []"
    then obtain p where p: "p \<in> set (in_set_deps T services z)" by (cases "in_set_deps T services z") auto
    then have "p \<in> ?S" by (simp add: in_set_deps_def)
    with p z show False by (auto simp: dep_edges_iff)
  qed
  with z(1) have "\<exists>s\<in>?S. in_set_deps T services s = []" by blast
  from kahn_result [OF dist this] obtain d' levels where
    inv: "kahn_inv T services d' levels []"
    and res: "topological_sort_deps T services =
       Some (if set (concat levels) = ?S then ([], levels)
             else ([CircularDependency (unplaced services levels)],
                   levels @ [sort (unplaced services levels)]))"
    by blast
  let ?P = "set (concat levels)"
  from inv have PS: "?P \<subseteq> ?S" and dl: "distinct (concat levels)"
    and cur: "{s \<in> ?S. s \<notin> ?P \<and> pending T services ?P s = []} = {}"
    and lo: "level_order T services levels"
    unfolding kahn_inv_def by auto
  have "?P = ?S"
  proof (rule ccontr)
    assume "?P \<noteq> ?S"
    with PS have "?S - ?P \<noteq> {}" by blast
    from acyclic_minimal [OF ac this] obtain x where
      x: "x \<in> ?S - ?P" "\<forall>y. (y, x) \<in> set (dep_edges T services) \<longrightarrow> y \<notin> ?S - ?P" by blast
    with cur have "pending T services ?P x \<noteq> []" by blast
    then obtain p where p: "p \<in> set (pending T services ?P x)"
      by (cases "pending T services ?P x") auto
    then have "p \<in> ?S - ?P" "(p, x) \<in> set (dep_edges T services)"
      using x(1) by (auto simp: pending_def dep_edges_iff in_set_deps_def)
    with x(2) show False by blast
  qed
  with res lo dl show ?thesis by simp
qed

lemma level_order_independent:
  assumes lo: "level_order T services levels" and dl: "distinct (concat levels)"
    and l: "l \<in> set levels"
  shows "level_independent T services l"
  unfolding level_independent_def
proof (intro ballI notI)
  fix s p
  assume s: "s \<in> set l" and p: "p \<in> set l" and ps: "p \<in> set (in_set_deps T services s)"
  from l obtain i where i: "i < length levels" "levels ! i = l"
    by (auto simp: in_set_conv_nth)
  with lo s ps obtain j where j: "j < i" "p \<in> set (levels ! j)"
    unfolding level_order_def by blast
  have "levels = take j levels @ levels ! j # drop (Suc j) levels"
    using j(1) i(1) by (simp add: id_take_nth_drop [symmetric])
  moreover have "l \<in> set (drop (Suc j) levels)"
    using i j(1) by (auto simp: in_set_conv_nth intro!: exI [of _ "i - Suc j"])
  ultimately have "set (levels ! j) \<inter> set l = {}"
    using dl by (metis distinct_append concat.simps(2) concat_append 
           UN_I set_concat disjoint_iff)
  with p j(2) show False by blast
qed

text \<open>
  The table of the source has no cycle, whatever the candidates: with it, the hypothesis of
  acyclicity below always holds and \<open>topological_sort\<close> orders every list of distinct
  candidates.
\<close>

lemma service_dependencies_tier:
  "p \<in> set (deps_of SERVICE_DEPENDENCIES s) \<Longrightarrow> tier p < tier s"
  by (auto simp: deps_of_def SERVICE_DEPENDENCIES_def tier_def split: if_splits)

lemma service_dependencies_acyclic:
  "acyclic (set (dep_edges SERVICE_DEPENDENCIES services))"
proof -
  have "set (dep_edges SERVICE_DEPENDENCIES services) \<subseteq> measure tier"
    by (auto simp: dep_edges_iff in_set_deps_def dest: service_dependencies_tier)
  then have "wf (set (dep_edges SERVICE_DEPENDENCIES services))"
    by (rule wf_subset [OF wf_measure])
  then show ?thesis by (rule wf_acyclic)
qed

lemma topological_sort_source_table:
  assumes "distinct services"
  shows "\<exists>w levels. topological_sort services = Some (w, levels) \<and>
     level_order SERVICE_DEPENDENCIES services levels \<and>
     distinct (concat levels) \<and> set (concat levels) = set services"
  unfolding topological_sort_def
  by (rule acyclic_result [OF assms service_dependencies_acyclic])

text \<open>
  Claim C1. For every list of distinct candidates whose dependency relation restricted to
  in-set edges is acyclic, \<open>topological_sort\<close> returns a plan in which every candidate
  has a level index, and that index is strictly greater than the level index of each of its
  prerequisites that is also a candidate.
\<close>

theorem topological_sort_levels_respect_prerequisites:
  assumes "distinct services" and "acyclic (set (dep_edges T services))"
  shows "\<exists>w levels. topological_sort_deps T services = Some (w, levels) \<and>
     (\<forall>s\<in>set services. \<exists>i. level_index levels s = Some i \<and>
        (\<forall>p\<in>set (in_set_deps T services s). \<exists>j. level_index levels p = Some j \<and> j < i))"
proof -
  from acyclic_result [OF assms] obtain w levels where
    res: "topological_sort_deps T services = Some (w, levels)"
    and lo: "level_order T services levels"
    and cover: "set (concat levels) = set services"
    by blast
  have "\<exists>i. level_index levels s = Some i \<and>
        (\<forall>p\<in>set (in_set_deps T services s). \<exists>j. level_index levels p = Some j \<and> j < i)"
    if s: "s \<in> set services" for s
  proof -
    from s cover have "s \<in> set (concat levels)" by simp
    then obtain k where "k < length levels" "s \<in> set (levels ! k)"
      unfolding in_concat_nth by blast
    from level_index_first [OF this] obtain i where
      i: "i \<le> k" "level_index levels s = Some i" "s \<in> set (levels ! i)" by blast
    with \<open>k < length levels\<close> have il: "i < length levels" by simp
    have "\<exists>j. level_index levels p = Some j \<and> j < i"
      if p: "p \<in> set (in_set_deps T services s)" for p
    proof -
      from lo il i(3) p obtain m where m: "m < i" "p \<in> set (levels ! m)"
        unfolding level_order_def by blast
      with il have "m < length levels" by simp
      from level_index_first [OF this m(2)] obtain j where
        "j \<le> m" "level_index levels p = Some j" by blast
      with m(1) show ?thesis by auto
    qed
    with i(2) show ?thesis by blast
  qed
  with res show ?thesis by blast
qed

theorem topological_sort_levels_respect_prerequisites_witness:
  "distinct [''compute'', ''identity'', ''network''] \<and>
   acyclic (set (dep_edges SERVICE_DEPENDENCIES [''compute'', ''identity'', ''network''])) \<and>
   topological_sort [''compute'', ''identity'', ''network''] =
     Some ([], [[''identity''], [''network''], [''compute'']]) \<and>
   level_index [[''identity''], [''network''], [''compute'']] ''compute'' = Some 2 \<and>
   level_index [[''identity''], [''network''], [''compute'']] ''network'' = Some 1 \<and>
   level_index [[''identity''], [''network''], [''compute'']] ''identity'' = Some 0 \<and>
   (\<exists>w levels.
      topological_sort_deps SERVICE_DEPENDENCIES [''compute'', ''identity'', ''network''] =
        Some (w, levels) \<and>
      (\<exists>i. level_index levels ''compute'' = Some i \<and>
         (\<exists>j. level_index levels ''network'' = Some j \<and> j < i)))"
proof -
  have d: "distinct [''compute'', ''identity'', ''network'']" by simp
  have a: "acyclic (set (dep_edges SERVICE_DEPENDENCIES [''compute'', ''identity'', ''network'']))"
    by (rule service_dependencies_acyclic)
  have r: "topological_sort [''compute'', ''identity'', ''network''] =
     Some ([], [[''identity''], [''network''], [''compute'']])"
    by code_simp
  from topological_sort_levels_respect_prerequisites [OF d a] r
  have "\<exists>i. level_index [[''identity''], [''network''], [''compute'']] ''compute'' = Some i \<and>
         (\<exists>j. level_index [[''identity''], [''network''], [''compute'']] ''network'' = Some j \<and> j < i)"
    by (simp add: topological_sort_def in_set_deps_def deps_of_def SERVICE_DEPENDENCIES_def)
  with d a r show ?thesis
    by (simp add: topological_sort_def)
qed

lemma concat_singletons: "concat (map (\<lambda>s. [s]) xs) = xs"
  by (induction xs) auto

lemma levels_cover_candidates:
  assumes dist: "distinct services"
  shows "\<exists>w levels. topological_sort_deps T services = Some (w, levels) \<and>
     distinct (concat levels) \<and> set (concat levels) = set services \<and>
     length (concat levels) = length services"
proof (cases "\<exists>s\<in>set services. in_set_deps T services s = []")
  case False
  then have "topological_sort_deps T services =
      Some ([NoZeroDependencies], map (\<lambda>s. [s]) services)"
    by (intro fallback_result) blast
  with dist show ?thesis by (simp add: concat_singletons)
next
  case True
  from kahn_result [OF dist True] obtain d' levels where
    inv: "kahn_inv T services d' levels []"
    and res: "topological_sort_deps T services =
       Some (if set (concat levels) = set services then ([], levels)
             else ([CircularDependency (unplaced services levels)],
                   levels @ [sort (unplaced services levels)]))"
    by blast
  from inv have PS: "set (concat levels) \<subseteq> set services" and dl: "distinct (concat levels)"
    unfolding kahn_inv_def by auto
  show ?thesis
  proof (cases "set (concat levels) = set services")
    case True
    have "length (concat levels) = length services"
      using distinct_card [OF dl] distinct_card [OF dist] True by simp
    moreover from res True have "topological_sort_deps T services = Some ([], levels)" by simp
    ultimately show ?thesis using dl True by blast
  next
    case False
    let ?lv = "levels @ [sort (unplaced services levels)]"
    have d: "distinct (concat ?lv)"
      using dl dist by (auto simp: unplaced_def)
    have s: "set (concat ?lv) = set services"
      using PS by (auto simp: unplaced_def)
    have l: "length (concat ?lv) = length services"
      using distinct_card [OF d] distinct_card [OF dist] s by simp
    from res False have "topological_sort_deps T services =
        Some ([CircularDependency (unplaced services levels)], ?lv)" by simp
    with d s l show ?thesis by blast
  qed
qed

text \<open>
  Claim C10. For every list of distinct service names, \<open>topological_sort\<close> returns (no
  dictionary read fails), and the concatenation of the returned levels holds each input
  service exactly once: nothing is dropped and nothing is duplicated, whether the plan comes
  from the leveling loop alone, from the no-zero-in-degree fallback, or ends with the
  remainder level of a detected cycle. The dependency table is arbitrary.
\<close>

theorem topological_sort_places_each_service_once:
  assumes dist: "distinct services"
  shows "\<exists>w levels. topological_sort_deps T services = Some (w, levels) \<and>
     distinct (concat levels) \<and> set (concat levels) = set services \<and>
     length (concat levels) = length services"
  using dist by (rule levels_cover_candidates)

theorem topological_sort_places_each_service_once_witness:
  "distinct [''a'', ''c'', ''b''] \<and>
   topological_sort_deps [(''a'', []), (''b'', [''c'']), (''c'', [''b''])] [''a'', ''c'', ''b''] =
     Some ([CircularDependency [''c'', ''b'']], [[''a''], [''b'', ''c'']]) \<and>
   (\<exists>w levels.
      topological_sort_deps [(''a'', []), (''b'', [''c'']), (''c'', [''b''])] [''a'', ''c'', ''b''] =
        Some (w, levels) \<and>
      distinct (concat levels) \<and> set (concat levels) = set [''a'', ''c'', ''b''] \<and>
      length (concat levels) = length [''a'', ''c'', ''b''])"
proof -
  have d: "distinct [''a'', ''c'', ''b'']" by simp
  have r: "topological_sort_deps [(''a'', []), (''b'', [''c'']), (''c'', [''b''])]
      [''a'', ''c'', ''b''] = Some ([CircularDependency [''c'', ''b'']], [[''a''], [''b'', ''c'']])"
    by code_simp
  from topological_sort_places_each_service_once [OF d] d r show ?thesis by blast
qed

text \<open>
  Claim C6. If every candidate has at least one prerequisite that is itself a candidate (no
  candidate has in-degree 0 under the in-set restriction), \<open>topological_sort\<close> prints
  the warning and returns one singleton level per candidate, in the order of its input.
\<close>

theorem topological_sort_no_zero_in_degree_fallback:
  assumes "\<forall>s\<in>set services. in_set_deps T services s \<noteq> []"
  shows "topological_sort_deps T services =
     Some ([NoZeroDependencies], map (\<lambda>s. [s]) services)"
  using assms by (rule fallback_result)

theorem topological_sort_no_zero_in_degree_fallback_witness:
  "in_set_deps [(''a'', [''b'']), (''b'', [''a''])] [''b'', ''a''] ''b'' = [''a''] \<and>
   in_set_deps [(''a'', [''b'']), (''b'', [''a''])] [''b'', ''a''] ''a'' = [''b''] \<and>
   topological_sort_deps [(''a'', [''b'']), (''b'', [''a''])] [''b'', ''a''] =
     Some ([NoZeroDependencies], [[''b''], [''a'']])"
  using topological_sort_no_zero_in_degree_fallback
    [of "[''b'', ''a'']" "[(''a'', [''b'']), (''b'', [''a''])]"]
  by (simp add: in_set_deps_def deps_of_def)

text \<open>
  Over an arbitrary table: the levels that the leveling loop itself produced have no internal
  prerequisite, and with acyclic in-set edges these are all the levels of the plan.
\<close>

lemma leveled_levels_independent:
  assumes dist: "distinct services"
    and res: "topological_sort_deps T services = Some (w, levels)"
  shows "(\<forall>l\<in>set (leveled w levels). level_independent T services l) \<and>
     (acyclic (set (dep_edges T services)) \<longrightarrow>
        (\<forall>l\<in>set levels. level_independent T services l))"
proof
  show "\<forall>l\<in>set (leveled w levels). level_independent T services l"
  proof (cases "\<exists>s\<in>set services. in_set_deps T services s = []")
    case False
    then have "topological_sort_deps T services =
        Some ([NoZeroDependencies], map (\<lambda>s. [s]) services)"
      by (intro fallback_result) blast
    with res show ?thesis by auto
  next
    case True
    from kahn_result [OF dist True] obtain d' lv where
      inv: "kahn_inv T services d' lv []"
      and res': "topological_sort_deps T services =
         Some (if set (concat lv) = set services then ([], lv)
               else ([CircularDependency (unplaced services lv)],
                     lv @ [sort (unplaced services lv)]))"
      by blast
    from inv have lo: "level_order T services lv" and dl: "distinct (concat lv)"
      unfolding kahn_inv_def by auto
    from res res' have "leveled w levels = lv" by (auto split: if_splits)
    with level_order_independent [OF lo dl] show ?thesis by blast
  qed
next
  show "acyclic (set (dep_edges T services)) \<longrightarrow>
        (\<forall>l\<in>set levels. level_independent T services l)"
  proof
    assume "acyclic (set (dep_edges T services))"
    from acyclic_result [OF dist this] res
    have "level_order T services levels" "distinct (concat levels)" by auto
    from level_order_independent [OF this] show "\<forall>l\<in>set levels. level_independent T services l"
      by blast
  qed
qed

text \<open>
  Claim C5. For every list of distinct candidates, \<open>topological_sort\<close> returns a plan, and
  no service of any of its levels has a prerequisite, per the dependency table of the source
  restricted to the candidates, that lies in the same level.
\<close>

theorem topological_sort_levels_have_no_internal_prerequisite:
  assumes "distinct services"
  shows "\<exists>w levels. topological_sort services = Some (w, levels) \<and>
     (\<forall>l\<in>set levels. level_independent SERVICE_DEPENDENCIES services l)"
proof -
  from topological_sort_source_table [OF assms] obtain w levels where
    res: "topological_sort services = Some (w, levels)"
    and lo: "level_order SERVICE_DEPENDENCIES services levels"
    and dl: "distinct (concat levels)"
    by blast
  from level_order_independent [OF lo dl]
  have "\<forall>l\<in>set levels. level_independent SERVICE_DEPENDENCIES services l" by blast
  with res show ?thesis by blast
qed

theorem topological_sort_levels_have_no_internal_prerequisite_witness:
  "distinct [''oss'', ''compute'', ''identity'', ''network'', ''tagging''] \<and>
   topological_sort [''oss'', ''compute'', ''identity'', ''network'', ''tagging''] =
     Some ([], [[''identity''], [''network'', ''oss'', ''tagging''], [''compute'']]) \<and>
   level_independent SERVICE_DEPENDENCIES
     [''oss'', ''compute'', ''identity'', ''network'', ''tagging'']
     [''network'', ''oss'', ''tagging'']"
proof -
  have d: "distinct [''oss'', ''compute'', ''identity'', ''network'', ''tagging'']" by simp
  have r: "topological_sort [''oss'', ''compute'', ''identity'', ''network'', ''tagging''] =
     Some ([], [[''identity''], [''network'', ''oss'', ''tagging''], [''compute'']])"
    by code_simp
  from topological_sort_levels_have_no_internal_prerequisite [OF d] r
  have "level_independent SERVICE_DEPENDENCIES
     [''oss'', ''compute'', ''identity'', ''network'', ''tagging'']
     [''network'', ''oss'', ''tagging'']"
    by simp
  with d r show ?thesis by blast
qed

section \<open>Properties of the service runner and of the driver\<close>

lemma service_run_service [simp]: "service (run_service env a s) = s"
  by (simp add: run_service_def execute_terraform_for_service_def Let_def set_counts_def
      split: proc.splits action.splits)

lemma level_results_run:
  assumes "\<not> dry_run a" and "parallel a \<longrightarrow> 0 < max_workers a"
  shows "level_results a env l = Inr (map (run_service env (action a)) (attempt_order a env l))"
proof (cases "parallel a \<and> length l > 1")
  case False
  with assms show ?thesis by (auto simp: level_results_def attempt_order_def)
next
  case True
  then obtain x y zs where "l = x # y # zs" by (cases l; cases "tl l") auto
  with True assms show ?thesis
    by (simp add: level_results_def attempt_order_def execute_services_in_parallel_def
        split: list.splits)
qed

lemma set_attempt_order [simp]: "set (attempt_order a env l) = set l"
  by (simp add: attempt_order_def)

lemma length_attempt_order [simp]: "length (attempt_order a env l) = length l"
  by (simp add: attempt_order_def)

lemma py_last_append: "py_last (length ys) (xs @ ys) = (if ys = [] then xs else ys)"
  by (simp add: py_last_def)

lemma execute_levels_fail_fast:
  assumes nd: "\<not> dry_run a" and mw: "parallel a \<longrightarrow> 0 < max_workers a"
    and pre: "\<forall>l\<in>set pre. \<forall>s\<in>set l. success (run_service env (action a) s)"
    and acc: "list_all success acc"
    and lv: "\<exists>s\<in>set lv. \<not> success (run_service env (action a) s)"
  shows "execute_levels a env (pre @ lv # post) (acc, called) =
     Inr (acc @ map (run_service env (action a)) (concat (map (attempt_order a env) (pre @ [lv]))),
          called @ concat (pre @ [lv]))"
  using pre acc
proof (induction pre arbitrary: acc called)
  case Nil
  let ?rs = "map (run_service env (action a)) (attempt_order a env lv)"
  from lv have "length ?rs \<noteq> 0" by (auto simp del: length_0_conv)
  then have ne: "?rs \<noteq> []" by blast
  from lv have "\<not> list_all success ?rs" by (auto simp: list_all_iff)
  with ne have "\<not> list_all success (py_last (length lv) (acc @ ?rs))"
    using py_last_append [of ?rs acc] by simp
  with nd show ?case
    by (simp add: level_results_run [OF nd mw] Let_def)
next
  case (Cons l pre)
  let ?rs = "map (run_service env (action a)) (attempt_order a env l)"
  from Cons.prems have ok: "list_all success ?rs" by (auto simp: list_all_iff)
  with Cons.prems(2) have acc': "list_all success (acc @ ?rs)" by simp
  have "list_all success (py_last (length l) (acc @ ?rs))"
    using py_last_append [of ?rs acc] ok Cons.prems(2) by (simp split: if_splits)
  then have "execute_levels a env ((l # pre) @ lv # post) (acc, called) =
      execute_levels a env (pre @ lv # post) (acc @ ?rs, called @ l)"
    using nd by (simp add: level_results_run [OF nd mw] Let_def)
  also have "\<dots> = Inr ((acc @ ?rs) @
        map (run_service env (action a)) (concat (map (attempt_order a env) (pre @ [lv]))),
      (called @ l) @ concat (pre @ [lv]))"
    by (rule Cons.IH) (use Cons.prems acc' in auto)
  finally show ?case by simp
qed

lemma execute_levels_dry_run:
  "dry_run a \<Longrightarrow>
   execute_levels a env levels (acc, called) =
     Inr (acc @ map (dry_run_result (action a)) (concat levels), called)"
  by (induction levels arbitrary: acc) (simp_all add: level_results_def)

lemma plan_exit_codes:
  "success (execute_terraform_for_service s Plan n (Completed 0 io ie) (Completed rc out err) t)
     \<longleftrightarrow> rc = 0 \<or> rc = 2"
  by (simp add: execute_terraform_for_service_def Let_def set_counts_def)

lemma plan_failure_captures_stderr:
  "rc \<noteq> 0 \<Longrightarrow> rc \<noteq> 2 \<Longrightarrow>
   error (execute_terraform_for_service s Plan n (Completed 0 io ie) (Completed rc out err) t) =
     Some (''Plan failed (exit code '' @ show_int rc @ ''): '' @ err)"
  by (simp add: execute_terraform_for_service_def Let_def set_counts_def)

lemma plan_counts_are_parsed:
  "resources_created
     (execute_terraform_for_service s Plan n (Completed 0 io ie) (Completed rc out err) t) =
   sm_add (parse_plan_summary out)"
  by (simp add: execute_terraform_for_service_def Let_def set_counts_def)

text \<open>
  Claim C2, at the input the claim itself names: the plan step exits with code 2 and prints
  \<open>Plan: 3 to add, 1 to change, 0 to destroy.\<close> The result is a success, but its resource
  deltas are (0, 0, 0): \<open>parse_plan_summary\<close> reads the token just before \<open>add,\<close>, which is
  the word \<open>to\<close>, and \<open>int\<close> fails on it.
\<close>

theorem plan_summary_reads_wrong_token:
  "split_ws ''Plan: 3 to add, 1 to change, 0 to destroy.'' ! (3 - 1) = ''to'' \<and>
   py_int ''to'' = None \<and>
   parse_plan_summary ''Plan: 3 to add, 1 to change, 0 to destroy.'' =
     \<lparr>sm_add = 0, sm_change = 0, sm_destroy = 0\<rparr> \<and>
   success (execute_terraform_for_service ''network'' Plan 0 (Completed 0 [] [])
     (Completed 2 ''Plan: 3 to add, 1 to change, 0 to destroy.'' []) 1) \<and>
   resources_created (execute_terraform_for_service ''network'' Plan 0 (Completed 0 [] [])
     (Completed 2 ''Plan: 3 to add, 1 to change, 0 to destroy.'' []) 1) = 0 \<and>
   resources_changed (execute_terraform_for_service ''network'' Plan 0 (Completed 0 [] [])
     (Completed 2 ''Plan: 3 to add, 1 to change, 0 to destroy.'' []) 1) = 0 \<and>
   resources_destroyed (execute_terraform_for_service ''network'' Plan 0 (Completed 0 [] [])
     (Completed 2 ''Plan: 3 to add, 1 to change, 0 to destroy.'' []) 1) = 0"
proof -
  have p: "parse_plan_summary ''Plan: 3 to add, 1 to change, 0 to destroy.'' =
     \<lparr>sm_add = 0, sm_change = 0, sm_destroy = 0\<rparr>"
    by code_simp
  have t: "split_ws ''Plan: 3 to add, 1 to change, 0 to destroy.'' ! (3 - 1) = ''to''"
    by code_simp
  have i: "py_int ''to'' = None" by code_simp
  from p t i show ?thesis
    by (simp add: execute_terraform_for_service_def Let_def set_counts_def)
qed

text \<open>
  Claim C4, at an init step that times out: the result is the one a timed-out plan or apply
  step gives, field for field. Its message names the requested action and thirty minutes,
  whichever step ran out of time, so it does not tell the two steps apart.
\<close>

theorem timeout_message_does_not_name_the_step:
  "execute_terraform_for_service s a n TimeoutExpired run t =
     execute_terraform_for_service s a n (Completed 0 out err) TimeoutExpired t \<and>
   error (execute_terraform_for_service s a n TimeoutExpired run t) =
     Some (''Terraform '' @ action_name a @ '' timed out after 30 minutes'') \<and>
   \<not> success (execute_terraform_for_service s a n TimeoutExpired run t)"
  by (simp add: execute_terraform_for_service_def timeout_message_def)

text \<open>
  Claim C3. In a run that is not a dry run (and whose worker pool, if one is used, can be
  created), let every service of the levels \<open>pre\<close> succeed and some service of the next
  level \<open>lv\<close> fail. Then the run returns exactly the results of \<open>pre\<close> and of \<open>lv\<close>, in
  the order attempted; exactly the services of those levels were executed; no service of a
  later level \<open>post\<close> was executed or has a result, failed or otherwise.
\<close>

theorem fail_fast_stops_after_failed_level:
  assumes "\<not> dry_run a" and "parallel a \<longrightarrow> 0 < max_workers a"
    and "\<forall>l\<in>set pre. \<forall>s\<in>set l. success (run_service env (action a) s)"
    and "\<exists>s\<in>set lv. \<not> success (run_service env (action a) s)"
  shows "\<exists>rs called.
     execute_levels a env (pre @ lv # post) ([], []) = Inr (rs, called) \<and>
     rs = map (run_service env (action a)) (concat (map (attempt_order a env) (pre @ [lv]))) \<and>
     called = concat (pre @ [lv]) \<and>
     set (map service rs) = set (concat (pre @ [lv])) \<and>
     length rs = length (concat (pre @ [lv])) \<and>
     \<not> list_all success rs"
proof -
  let ?rs = "map (run_service env (action a)) (concat (map (attempt_order a env) (pre @ [lv])))"
  have "execute_levels a env (pre @ lv # post) ([], []) = Inr ([] @ ?rs, [] @ concat (pre @ [lv]))"
    by (rule execute_levels_fail_fast [OF assms(1-3) _ assms(4)]) simp
  then have "execute_levels a env (pre @ lv # post) ([], []) = Inr (?rs, concat (pre @ [lv]))"
    by (simp only: append_Nil)
  moreover have "set (map service ?rs) = set (concat (pre @ [lv]))"
    by (simp add: comp_def)
  moreover have "length ?rs = length (concat (pre @ [lv]))"
    by (simp add: length_concat comp_def)
  moreover have "\<not> list_all success ?rs"
    using assms(4) by (auto simp: list_all_iff)
  ultimately show ?thesis by blast
qed

theorem fail_fast_stops_after_failed_level_witness:
  "\<not> dry_run sample_args \<and>
   success (run_service sample_env Plan ''identity'') \<and>
   \<not> success (run_service sample_env Plan ''network'') \<and>
   (\<exists>rs. execute_levels sample_args sample_env [[''identity''], [''network''], [''compute'']]
      ([], []) = Inr (rs, [''identity'', ''network'']) \<and>
      map service rs = [''identity'', ''network''])"
proof -
  have 1: "\<not> dry_run sample_args" and 2: "parallel sample_args \<longrightarrow> 0 < max_workers sample_args"
    by (simp_all add: sample_args_def)
  have s1: "success (run_service sample_env Plan ''identity'')"
    and s2: "\<not> success (run_service sample_env Plan ''network'')"
    by (simp_all add: run_service_def sample_env_def plan_exit_codes)
  have 3: "\<forall>l\<in>set [[''identity'']]. \<forall>s\<in>set l.
      success (run_service sample_env (action sample_args) s)"
    using s1 by (simp add: sample_args_def)
  have 4: "\<exists>s\<in>set [''network'']. \<not> success (run_service sample_env (action sample_args) s)"
    using s2 by (simp add: sample_args_def)
  from fail_fast_stops_after_failed_level [OF 1 2 3 4, of "[[''compute'']]"]
  show ?thesis using 1 s1 s2
    by (auto simp: attempt_order_def sample_args_def)
qed

text \<open>
  Claim C9. With the dry-run flag set, the loop over the levels executes no service (the
  list of executed services stays empty) and returns, for every service of every level in
  plan order, the synthesized result: success, duration 0, no error, all three resource
  counters 0 and the placeholder text as output. It never stops early. For a list of distinct
  candidates, the whole run gives exactly one such result per candidate.
\<close>

theorem dry_run_synthesizes_success_for_every_service:
  "execute_levels (a\<lparr>dry_run := True\<rparr>) env levels ([], []) =
     Inr (map (dry_run_result (action a)) (concat levels), []) \<and>
   (\<forall>s. service (dry_run_result act s) = s \<and> success (dry_run_result act s) \<and>
        duration (dry_run_result act s) = 0 \<and> error (dry_run_result act s) = None \<and>
        resources_created (dry_run_result act s) = 0 \<and>
        resources_changed (dry_run_result act s) = 0 \<and>
        resources_destroyed (dry_run_result act s) = 0 \<and>
        output_text (dry_run_result act s) =
          ''[DRY-RUN] Simulated '' @ action_name act @ '' for '' @ s) \<and>
   (distinct services \<longrightarrow>
      (\<exists>rs. orchestrate (a\<lparr>dry_run := True\<rparr>) env T services = Inr (rs, []) \<and>
         list_all (\<lambda>r. r = dry_run_result (action a) (service r)) rs \<and>
         distinct (map service rs) \<and> set (map service rs) = set services))"
proof (intro conjI impI)
  show "execute_levels (a\<lparr>dry_run := True\<rparr>) env levels ([], []) =
     Inr (map (dry_run_result (action a)) (concat levels), [])"
    using execute_levels_dry_run [of "a\<lparr>dry_run := True\<rparr>" env levels "[]" "[]"] by simp
  show "\<forall>s. service (dry_run_result act s) = s \<and> success (dry_run_result act s) \<and>
        duration (dry_run_result act s) = 0 \<and> error (dry_run_result act s) = None \<and>
        resources_created (dry_run_result act s) = 0 \<and>
        resources_changed (dry_run_result act s) = 0 \<and>
        resources_destroyed (dry_run_result act s) = 0 \<and>
        output_text (dry_run_result act s) =
          ''[DRY-RUN] Simulated '' @ action_name act @ '' for '' @ s"
    by (simp add: dry_run_result_def)
  assume dist: "distinct services"
  from levels_cover_candidates [OF dist, of T] obtain w lv where
    ts: "topological_sort_deps T services = Some (w, lv)"
    and d: "distinct (concat lv)" and c: "set (concat lv) = set services"
    by blast
  let ?rs = "map (dry_run_result (action a)) (concat lv)"
  have svc: "map service ?rs = concat lv"
    by (simp add: comp_def dry_run_result_def)
  have "orchestrate (a\<lparr>dry_run := True\<rparr>) env T services = Inr (?rs, [])"
  proof (cases "services = []")
    case True
    with c have "concat lv = []" by simp
    with True show ?thesis by (simp add: orchestrate_def)
  next
    case False
    with ts show ?thesis
      using execute_levels_dry_run [of "a\<lparr>dry_run := True\<rparr>" env lv "[]" "[]"]
      by (simp add: orchestrate_def)
  qed
  moreover have "list_all (\<lambda>r. r = dry_run_result (action a) (service r)) ?rs"
    by (simp add: list_all_iff dry_run_result_def)
  moreover have "distinct (map service ?rs)" "set (map service ?rs) = set services"
    using d c unfolding svc by simp_all
  ultimately show "\<exists>rs. orchestrate (a\<lparr>dry_run := True\<rparr>) env T services = Inr (rs, []) \<and>
         list_all (\<lambda>r. r = dry_run_result (action a) (service r)) rs \<and>
         distinct (map service rs) \<and> set (map service rs) = set services"
    by blast
qed

theorem dry_run_synthesizes_success_for_every_service_witness:
  "distinct [''compute'', ''identity'', ''network''] \<and>
   execute_levels (sample_args\<lparr>dry_run := True\<rparr>) sample_env
     [[''identity''], [''network''], [''compute'']] ([], []) =
     Inr (map (dry_run_result Plan) [''identity'', ''network'', ''compute''], []) \<and>
   \<not> success (run_service sample_env Plan ''network'') \<and>
   success (dry_run_result Plan ''network'') \<and>
   (\<exists>rs. orchestrate (sample_args\<lparr>dry_run := True\<rparr>) sample_env SERVICE_DEPENDENCIES
        [''compute'', ''identity'', ''network''] = Inr (rs, []) \<and>
      set (map service rs) = set [''compute'', ''identity'', ''network''])"
proof -
  have d: "distinct [''compute'', ''identity'', ''network'']" by simp
  have f: "\<not> success (run_service sample_env Plan ''network'')"
    by (simp add: run_service_def sample_env_def plan_exit_codes)
  note t = dry_run_synthesizes_success_for_every_service
    [of sample_args sample_env "[[''identity''], [''network''], [''compute'']]" Plan
        "[''compute'', ''identity'', ''network'']" SERVICE_DEPENDENCIES]
  from t have 1: "execute_levels (sample_args\<lparr>dry_run := True\<rparr>) sample_env
     [[''identity''], [''network''], [''compute'']] ([], []) =
     Inr (map (dry_run_result Plan) [''identity'', ''network'', ''compute''], [])"
    by (simp add: sample_args_def)
  from t have 2: "success (dry_run_result Plan ''network'')" by blast
  from t d have 3: "\<exists>rs. orchestrate (sample_args\<lparr>dry_run := True\<rparr>) sample_env
        SERVICE_DEPENDENCIES [''compute'', ''identity'', ''network''] = Inr (rs, []) \<and>
      set (map service rs) = set [''compute'', ''identity'', ''network'']"
    by blast
  from d 1 f 2 3 show ?thesis by blast
qed

section \<open>Properties of change detection\<close>

lemma set_set_add [simp]: "set (set_add x xs) = insert x (set xs)"
  by (auto simp: set_add_def)

lemma set_foldl_union:
  assumes "\<And>acc x. set (f acc x) = set acc \<union> g x"
  shows "set (foldl f acc xs) = set acc \<union> (\<Union>x\<in>set xs. g x)"
  by (induction xs arbitrary: acc) (auto simp: assms)

lemma set_set_update [simp]: "set (set_update xs ys) = set xs \<union> set ys"
  unfolding set_update_def
  by (subst set_foldl_union [where g = "\<lambda>x. {x}"]) auto

lemma split_char_append:
  "sep \<notin> set a \<Longrightarrow> split_char sep (a @ sep # b) = a # split_char sep b"
  by (induction a) (auto split: list.splits)

lemma split_module_path:
  assumes "CHR ''/'' \<notin> set M"
  shows "\<exists>ps. split_char (CHR ''/'') (''modules/'' @ M @ ''/'' @ rest) = ''modules'' # M # ps"
proof -
  have "split_char (CHR ''/'') (''modules'' @ CHR ''/'' # (M @ CHR ''/'' # rest)) =
      ''modules'' # split_char (CHR ''/'') (M @ CHR ''/'' # rest)"
    by (rule split_char_append) simp
  also have "split_char (CHR ''/'') (M @ CHR ''/'' # rest) = M # split_char (CHR ''/'') rest"
    by (rule split_char_append [OF assms])
  finally show ?thesis by simp
qed

lemma set_modules_of:
  "set (modules_of paths) =
     (\<Union>p\<in>set paths.
        if prefix ''modules/'' p \<and> length (split_char (CHR ''/'') p) \<ge> 2
        then {split_char (CHR ''/'') p ! 1} else {})"
  unfolding modules_of_def
  by (subst set_foldl_union
      [where g = "\<lambda>p. if prefix ''modules/'' p \<and> length (split_char (CHR ''/'') p) \<ge> 2
        then {split_char (CHR ''/'') p ! 1} else {}"])
    (auto simp: Let_def)

lemma module_path_detected:
  assumes "''modules/'' @ M @ ''/'' @ rest \<in> set paths" and "CHR ''/'' \<notin> set M"
  shows "M \<in> set (modules_of paths)"
proof -
  let ?p = "''modules/'' @ M @ ''/'' @ rest"
  from split_module_path [OF assms(2), of rest] obtain ps where
    ps: "split_char (CHR ''/'') ?p = ''modules'' # M # ps" by blast
  have "prefix ''modules/'' ?p" by simp
  with ps assms(1) show ?thesis
    unfolding set_modules_of by (intro UN_I [of ?p]) auto
qed

lemma set_scan_service:
  "set (scan_service fs ms acc n) =
     set acc \<union>
     (if \<exists>f\<in>set (glob_tf fs n). \<exists>c. read_text fs n f = Inr c \<and> list_ex (references_module c) ms
      then {n} else {})"
proof -
  have "set (scan_service fs ms acc n) =
      set acc \<union> (\<Union>f\<in>set (glob_tf fs n).
        (case read_text fs n f of Inl e \<Rightarrow> {}
         | Inr c \<Rightarrow> if list_ex (references_module c) ms then {n} else {}))"
    unfolding scan_service_def
    by (rule set_foldl_union) (auto split: sum.splits)
  also have "(\<Union>f\<in>set (glob_tf fs n).
        (case read_text fs n f of Inl e \<Rightarrow> {}
         | Inr c \<Rightarrow> if list_ex (references_module c) ms then {n} else {})) =
     (if \<exists>f\<in>set (glob_tf fs n). \<exists>c. read_text fs n f = Inr c \<and> list_ex (references_module c) ms
      then {n} else {})"
    by (auto split: sum.splits if_splits)
  finally show ?thesis .
qed

lemma get_services_using_modules_set:
  assumes "wd_exists fs" and "wd_iterdir fs = Inr names"
  shows "\<exists>affected. get_services_using_modules fs ms = Inr affected \<and>
     set affected =
       {n \<in> set names. is_dir fs n \<and> \<not> hidden n \<and>
          (\<exists>f\<in>set (glob_tf fs n). \<exists>c. read_text fs n f = Inr c \<and>
             list_ex (references_module c) ms)}"
proof -
  let ?g = "\<lambda>n. if is_dir fs n \<and> \<not> hidden n \<and>
          (\<exists>f\<in>set (glob_tf fs n). \<exists>c. read_text fs n f = Inr c \<and>
             list_ex (references_module c) ms) then {n} else {}"
  let ?step = "\<lambda>services name.
                    if \<not> is_dir fs name \<or> hidden name then services
                    else scan_service fs ms services name"
  have "set (foldl ?step [] names) = set [] \<union> (\<Union>n\<in>set names. ?g n)"
    by (rule set_foldl_union) (auto simp: set_scan_service)
  also have "\<dots> = {n \<in> set names. is_dir fs n \<and> \<not> hidden n \<and>
          (\<exists>f\<in>set (glob_tf fs n). \<exists>c. read_text fs n f = Inr c \<and>
             list_ex (references_module c) ms)}"
    by (auto split: if_splits)
  finally show ?thesis
    using assms by (simp add: get_services_using_modules_def)
qed

lemma module_fan_out:
  assumes cf: "read_changed_files fs base_ref = Inr changed_files"
    and fp: "''modules/'' @ M @ ''/'' @ rest \<in> set changed_files"
    and M: "CHR ''/'' \<notin> set M"
    and ex: "wd_exists fs" and ls: "wd_iterdir fs = Inr names"
    and n: "n \<in> set names" "is_dir fs n" "\<not> hidden n"
    and f: "f \<in> set (glob_tf fs n)" "read_text fs n f = Inr content"
      "py_in (''modules/'' @ M) content"
  shows "\<exists>r. detect_changed_services fs base_ref = ([], Inr r) \<and> n \<in> set r"
proof -
  from fp have ne: "changed_files \<noteq> []" by auto
  then have dm: "detect_module_changes fs base_ref changed_files = modules_of changed_files"
    by (simp add: detect_module_changes_def)
  have Min: "M \<in> set (modules_of changed_files)"
    by (rule module_path_detected [OF fp M])
  then have mne: "modules_of changed_files \<noteq> []" by auto
  from get_services_using_modules_set [OF ex ls, of "modules_of changed_files"]
  obtain affected where
    a: "get_services_using_modules fs (modules_of changed_files) = Inr affected"
    and sa: "set affected =
       {n \<in> set names. is_dir fs n \<and> \<not> hidden n \<and>
          (\<exists>f\<in>set (glob_tf fs n). \<exists>c. read_text fs n f = Inr c \<and>
             list_ex (references_module c) (modules_of changed_files))}"
    by blast
  have "list_ex (references_module content) (modules_of changed_files)"
    using Min f(3) by (auto simp: list_ex_iff references_module_def)
  with n f(1,2) have "n \<in> set affected" unfolding sa by blast
  moreover have "detect_try fs base_ref =
      Inr (sort (set_update (direct_services fs changed_files) affected))"
    using cf dm mne a by (simp add: detect_try_def Let_def)
  ultimately show ?thesis by (simp add: detect_changed_services_def)
qed

lemma fallback_lists_visible_services:
  assumes "detect_try fs base_ref = Inl e"
  shows "(wd_exists fs \<and> wd_iterdir fs = Inr names \<longrightarrow>
        (\<exists>r. detect_changed_services fs base_ref = ([ChangeDetectionFailed e], Inr r) \<and>
           sorted r \<and>
           set r = {n \<in> set names. is_dir fs n \<and> \<not> hidden n \<and> glob_tf fs n \<noteq> []})) \<and>
     (\<not> wd_exists fs \<longrightarrow>
        detect_changed_services fs base_ref =
          ([ChangeDetectionFailed e, WorkingDirectoryNotFound], Inr []))"
  using assms
  by (auto simp: detect_changed_services_def get_all_terraform_services_def)

lemma detect_try_errors:
  "changed_list fs = Some (Inl e) \<Longrightarrow> detect_try fs base_ref = Inl e"
  "changed_list fs = None \<Longrightarrow> no_ref base_ref \<Longrightarrow> detect_try fs base_ref = Inl ValueError"
  "changed_list fs = None \<Longrightarrow> base_ref = Some r \<Longrightarrow> r \<noteq> [] \<Longrightarrow> diff_paths fs r = Inl e \<Longrightarrow>
     detect_try fs base_ref = Inl e"
  by (auto simp: detect_try_def read_changed_files_def no_ref_def split: option.splits)

text \<open>
  Claim C7, as stated, fails on a working directory that holds a directory whose name starts
  with a dot: with no change source at all the \<open>try\<close> raises \<open>ValueError\<close>, and the fallback
  returns \<open>compute\<close> and \<open>network\<close> but not \<open>.staging\<close>, a directory of the working
  directory with a \<open>.tf\<close> file (a directory that direct detection does report as a service
  when one of its files changed). Besides, when the working directory cannot be listed the
  fallback raises in its turn, and that error does reach the caller.
\<close>

theorem fallback_skips_hidden_directory_counterexample:
  "detect_try (sample_fs\<lparr>changed_list := None\<rparr>) None = Inl ValueError \<and>
   wd_iterdir (sample_fs\<lparr>changed_list := None\<rparr>) =
     Inr [''network'', ''.staging'', ''compute'', ''docs''] \<and>
   is_dir (sample_fs\<lparr>changed_list := None\<rparr>) ''.staging'' \<and>
   glob_tf (sample_fs\<lparr>changed_list := None\<rparr>) ''.staging'' = [''main.tf''] \<and>
   detect_changed_services (sample_fs\<lparr>changed_list := None\<rparr>) None =
     ([ChangeDetectionFailed ValueError], Inr [''compute'', ''network'']) \<and>
   ''.staging'' \<notin> set [''compute'', ''network''] \<and>
   detect_changed_services
     (sample_fs\<lparr>changed_list := Some (Inr [''toronto/.staging/main.tf''])\<rparr>) None =
     ([], Inr [''.staging'']) \<and>
   detect_changed_services (sample_fs\<lparr>changed_list := None, wd_iterdir := Inl OSError\<rparr>) None =
     ([ChangeDetectionFailed ValueError], Inl OSError)"
  by code_simp

text \<open>
  Claim C7, amended. Whenever the body of the \<open>try\<close> of \<open>detect_changed_services\<close> raises
  (the external list cannot be read, no change source is given, the diff fails, the module
  scan fails), the function logs the warning and runs the fallback. If the working directory
  exists and can be listed, it returns, sorted, exactly the directories of the working
  directory whose name does not start with a dot and that hold at least one \<open>.tf\<close> file; if
  the working directory does not exist it returns the empty list. (What happens when the
  listing itself raises is left open.)
\<close>

theorem detection_failure_falls_back_to_visible_services:
  assumes "detect_try fs base_ref = Inl e"
  shows "(wd_exists fs \<and> wd_iterdir fs = Inr names \<longrightarrow>
        (\<exists>r. detect_changed_services fs base_ref = ([ChangeDetectionFailed e], Inr r) \<and>
           sorted r \<and>
           set r = {n \<in> set names. is_dir fs n \<and> \<not> hidden n \<and> glob_tf fs n \<noteq> []})) \<and>
     (\<not> wd_exists fs \<longrightarrow>
        detect_changed_services fs base_ref =
          ([ChangeDetectionFailed e, WorkingDirectoryNotFound], Inr []))"
  using assms by (rule fallback_lists_visible_services)

theorem detection_failure_falls_back_to_visible_services_witness:
  "detect_try (sample_fs\<lparr>changed_list := None\<rparr>) None = Inl ValueError \<and>
   wd_exists (sample_fs\<lparr>changed_list := None\<rparr>) \<and>
   wd_iterdir (sample_fs\<lparr>changed_list := None\<rparr>) =
     Inr [''network'', ''.staging'', ''compute'', ''docs''] \<and>
   detect_changed_services (sample_fs\<lparr>changed_list := None\<rparr>) None =
     ([ChangeDetectionFailed ValueError], Inr [''compute'', ''network'']) \<and>
   (\<exists>r. detect_changed_services (sample_fs\<lparr>changed_list := None\<rparr>) None =
        ([ChangeDetectionFailed ValueError], Inr r) \<and>
      sorted r \<and> ''network'' \<in> set r \<and> ''docs'' \<notin> set r) \<and>
   detect_try (sample_fs\<lparr>changed_list := None, wd_exists := False\<rparr>) None = Inl ValueError \<and>
   detect_changed_services (sample_fs\<lparr>changed_list := None, wd_exists := False\<rparr>) None =
     ([ChangeDetectionFailed ValueError, WorkingDirectoryNotFound], Inr [])"
proof -
  let ?fs = "sample_fs\<lparr>changed_list := None\<rparr>"
  let ?gone = "sample_fs\<lparr>changed_list := None, wd_exists := False\<rparr>"
  have t: "detect_try ?fs None = Inl ValueError"
    by (rule detect_try_errors(2)) (simp_all add: no_ref_def)
  have t': "detect_try ?gone None = Inl ValueError"
    by (rule detect_try_errors(2)) (simp_all add: no_ref_def)
  have e: "wd_exists ?fs" and l: "wd_iterdir ?fs = Inr [''network'', ''.staging'', ''compute'', ''docs'']"
    and g: "\<not> wd_exists ?gone"
    by (simp_all add: sample_fs_def)
  have v: "detect_changed_services ?fs None =
     ([ChangeDetectionFailed ValueError], Inr [''compute'', ''network''])"
    by code_simp
  from detection_failure_falls_back_to_visible_services
    [OF t, of "[''network'', ''.staging'', ''compute'', ''docs'']"] e l
  obtain r where r: "detect_changed_services ?fs None = ([ChangeDetectionFailed ValueError], Inr r)"
    "sorted r"
    "set r = {n \<in> set [''network'', ''.staging'', ''compute'', ''docs''].
       is_dir ?fs n \<and> \<not> hidden n \<and> glob_tf ?fs n \<noteq> []}"
    by blast
  from r(3) have "''network'' \<in> set r" "''docs'' \<notin> set r"
    by (simp_all add: sample_fs_def hidden_def)
  with r(1,2) have x: "\<exists>r. detect_changed_services ?fs None =
        ([ChangeDetectionFailed ValueError], Inr r) \<and>
      sorted r \<and> ''network'' \<in> set r \<and> ''docs'' \<notin> set r" by blast
  from detection_failure_falls_back_to_visible_services [OF t', of "[]"] g
  have y: "detect_changed_services ?gone None =
     ([ChangeDetectionFailed ValueError, WorkingDirectoryNotFound], Inr [])"
    by blast
  from t e l v x t' y show ?thesis by blast
qed

text \<open>
  Claim C8, as stated, fails on a directory whose name starts with a dot: \<open>.staging\<close> is a
  directory of the working directory, its \<open>main.tf\<close> names \<open>modules/net-common\<close>, a file of
  that module changed, and the returned list is \<open>network\<close> alone.
\<close>

theorem fan_out_skips_hidden_directory_counterexample:
  "changed_list sample_fs = Some (Inr [''modules/net-common/main.tf'' @ [newline]]) \<and>
   wd_iterdir sample_fs = Inr [''network'', ''.staging'', ''compute'', ''docs''] \<and>
   is_dir sample_fs ''.staging'' \<and>
   glob_tf sample_fs ''.staging'' = [''main.tf''] \<and>
   read_text sample_fs ''.staging'' ''main.tf'' =
     Inr (''module net { source = '' @ [CHR 0x22] @ ''../../modules/net-common'' @ [CHR 0x22] @ '' }'') \<and>
   py_in ''modules/net-common''
     (''module net { source = '' @ [CHR 0x22] @ ''../../modules/net-common'' @ [CHR 0x22] @ '' }'') \<and>
   detect_changed_services sample_fs None = ([], Inr [''network'']) \<and>
   ''.staging'' \<notin> set [''network'']"
  by code_simp

text \<open>
  Claim C8, amended. Let the list of changed files hold a path \<open>modules/M/...\<close>, and let the
  working directory exist and be listable. Then every directory of the working directory
  whose name does not start with a dot and one of whose readable \<open>.tf\<close> files contains the
  text \<open>modules/M\<close> is in the list that \<open>detect_changed_services\<close> returns, whether or not a
  file of that directory is in the list of changed files.
\<close>

theorem module_change_fans_out_to_visible_services:
  assumes "read_changed_files fs base_ref = Inr changed_files"
    and "''modules/'' @ M @ ''/'' @ rest \<in> set changed_files"
    and "CHR ''/'' \<notin> set M"
    and "wd_exists fs" and "wd_iterdir fs = Inr names"
    and "n \<in> set names" and "is_dir fs n" and "\<not> hidden n"
    and "f \<in> set (glob_tf fs n)" and "read_text fs n f = Inr content"
    and "py_in (''modules/'' @ M) content"
  shows "\<exists>r. detect_changed_services fs base_ref = ([], Inr r) \<and> n \<in> set r"
  using assms by (rule module_fan_out)

theorem module_change_fans_out_to_visible_services_witness:
  "read_changed_files sample_fs None = Inr [''modules/net-common/main.tf''] \<and>
   ''modules/'' @ ''net-common'' @ ''/'' @ ''main.tf'' \<in> set [''modules/net-common/main.tf''] \<and>
   CHR ''/'' \<notin> set ''net-common'' \<and>
   wd_exists sample_fs \<and>
   wd_iterdir sample_fs = Inr [''network'', ''.staging'', ''compute'', ''docs''] \<and>
   ''network'' \<in> set [''network'', ''.staging'', ''compute'', ''docs''] \<and>
   is_dir sample_fs ''network'' \<and> \<not> hidden ''network'' \<and>
   ''main.tf'' \<in> set (glob_tf sample_fs ''network'') \<and>
   read_text sample_fs ''network'' ''main.tf'' =
     Inr (''module net { source = '' @ [CHR 0x22] @ ''../../modules/net-common'' @ [CHR 0x22] @ '' }'') \<and>
   py_in (''modules/'' @ ''net-common'')
     (''module net { source = '' @ [CHR 0x22] @ ''../../modules/net-common'' @ [CHR 0x22] @ '' }'') \<and>
   (\<exists>r. detect_changed_services sample_fs None = ([], Inr r) \<and> ''network'' \<in> set r)"
proof -
  have 1: "read_changed_files sample_fs None = Inr [''modules/net-common/main.tf'']"
    by code_simp
  have 2: "''modules/'' @ ''net-common'' @ ''/'' @ ''main.tf'' \<in> set [''modules/net-common/main.tf'']"
    by simp
  have 3: "CHR ''/'' \<notin> set ''net-common''" by simp
  have 4: "wd_exists sample_fs"
    and 5: "wd_iterdir sample_fs = Inr [''network'', ''.staging'', ''compute'', ''docs'']"
    and 7: "is_dir sample_fs ''network''"
    and 9: "''main.tf'' \<in> set (glob_tf sample_fs ''network'')"
    and 10: "read_text sample_fs ''network'' ''main.tf'' =
     Inr (''module net { source = '' @ [CHR 0x22] @ ''../../modules/net-common'' @ [CHR 0x22] @ '' }'')"
    by (simp_all add: sample_fs_def)
  have 6: "''network'' \<in> set [''network'', ''.staging'', ''compute'', ''docs'']" by simp
  have 8: "\<not> hidden ''network''" by (simp add: hidden_def)
  have 11: "py_in (''modules/'' @ ''net-common'')
     (''module net { source = '' @ [CHR 0x22] @ ''../../modules/net-common'' @ [CHR 0x22] @ '' }'')"
    by code_simp
  from module_change_fans_out_to_visible_services [OF 1 2 3 4 5 6 7 8 9 10 11]
  have "\<exists>r. detect_changed_services sample_fs None = ([], Inr r) \<and> ''network'' \<in> set r" .
  with 1 2 3 4 5 6 7 8 9 10 11 show ?thesis by blast
qed

end
